theory Spec2Isabelle
  imports Complex_Main
begin

section \<open>Python, NumPy and FITS values\<close>

text \<open>
  The program \<^verbatim>\<open>fitsconcat.py\<close> builds one FITS cube out of a list of FITS images.
  Its three stages are \<^verbatim>\<open>make_empty_image\<close> (write a header and extend the file to its
  final size), the fill (\<^verbatim>\<open>fill_cube_with_images\<close>, or \<^verbatim>\<open>insert_channel\<close> run once per
  channel by a process pool) and \<^verbatim>\<open>update_fits_header\<close>.

  Exceptions are values: every function that touches the disk returns the disk it leaves
  behind together with the exception it raised, if any. Output written through a
  memory map before an exception stays written.
\<close>

datatype error =
    IndexError | ValueError | TypeError | AttributeError | FileNotFoundError | OSError
  | BufferTooSmall

subsection \<open>Header cards\<close>

datatype hval = HInt int | HBool bool | HStr string

type_synonym header = "(string \<times> hval) list"

text \<open>\<^verbatim>\<open>header[key] = value\<close>: the card of that keyword is overwritten where it stands,
  a new keyword is appended. Card comments are not modelled (the tuple
  \<^verbatim>\<open>("FREQ", "")\<close> stores the value \<^verbatim>\<open>FREQ\<close> with an empty comment).\<close>

primrec set_card :: "string \<Rightarrow> hval \<Rightarrow> header \<Rightarrow> header" where
  "set_card k v [] = [(k, v)]"
| "set_card k v (c # cs) = (if fst c = k then (k, v) # cs else c # set_card k v cs)"

text \<open>\<^verbatim>\<open>str(n)\<close> and \<^verbatim>\<open>"%d" % n\<close> for a natural number.\<close>

fun str_nat :: "nat \<Rightarrow> string" where
  "str_nat n =
     (if n < 10 then [''0123456789'' ! n]
      else str_nat (n div 10) @ [''0123456789'' ! (n mod 10)])"

declare str_nat.simps [simp del]

text \<open>A structural card read as a natural number; \<^verbatim>\<open>header.get(key, 0)\<close>. The structural
  cards of a FITS file are non-negative integers; a card of another kind reads as 0 here.\<close>

definition header_nat :: "header \<Rightarrow> string \<Rightarrow> nat" where
  "header_nat h k = (case map_of h k of Some (HInt n) \<Rightarrow> nat n | _ \<Rightarrow> 0)"

text \<open>\<^verbatim>\<open>len(header.tostring())\<close>: 80 bytes per card, the \<^verbatim>\<open>END\<close> card, blanks up to the
  next multiple of 2880 (the FITS block). \<^verbatim>\<open>header.tofile\<close> writes the same bytes.\<close>

definition header_size :: "header \<Rightarrow> nat" where
  "header_size h = 2880 * ((80 * (length h + 1) + 2879) div 2880)"

subsection \<open>Files\<close>

text \<open>
  A FITS file on disk: the cards held in its header blocks, and what follows the header
  blocks. What follows is kept in units of one array element (4 bytes, a big-endian
  \<^verbatim>\<open>float32\<close>); \<open>spare\<close> counts trailing bytes that do not fill an element. All images are
  taken to hold \<^verbatim>\<open>float32\<close> elements, of an arbitrary type \<open>'a\<close> whose \<open>0\<close> is the
  element of four zero bytes.
\<close>

record 'a fits_file =
  cards :: header
  body :: "'a list"
  spare :: nat

type_synonym 'a disk = "string \<Rightarrow> 'a fits_file option"


subsection \<open>Arrays\<close>

text \<open>A NumPy array in C order: \<open>length (cells a) = prod_list (shape a)\<close>.\<close>

record 'a ndarray =
  shape :: "nat list"
  cells :: "'a list"

text \<open>\<^verbatim>\<open>hdu.shape\<close>: the axis lengths \<^verbatim>\<open>NAXIS1 .. NAXISn\<close>, reversed (\<^verbatim>\<open>NAXIS1\<close> is the
  fastest axis, the last one of the array).\<close>

definition hdu_shape :: "header \<Rightarrow> nat list" where
  "hdu_shape h =
     rev (map (\<lambda>i. header_nat h (''NAXIS'' @ str_nat i)) [1 ..< Suc (header_nat h ''NAXIS'')])"

text \<open>\<^verbatim>\<open>hdu.data\<close> of a memory-mapped file: \<^verbatim>\<open>None\<close> when the header has no axes; otherwise
  an array over the bytes that follow the header, which must be enough of them.\<close>

definition hdu_data :: "'a fits_file \<Rightarrow> error + 'a ndarray option" where
  "hdu_data f =
     (let shp = hdu_shape (cards f) in
      if shp = [] then Inr None
      else if length (body f) < prod_list shp then Inl BufferTooSmall
      else Inr (Some \<lparr>shape = shp, cells = take (prod_list shp) (body f)\<rparr>))"

text \<open>The file as a memory map opened for update leaves it: the array's elements are
  the first elements after the header, the rest of the file is as it was.\<close>

definition store_data :: "'a fits_file \<Rightarrow> 'a ndarray option \<Rightarrow> 'a fits_file" where
  "store_data f d =
     (case d of None \<Rightarrow> f
      | Some a \<Rightarrow> f\<lparr>body := cells a @ drop (length (cells a)) (body f)\<rparr>)"

text \<open>\<^verbatim>\<open>np.squeeze(d).shape\<close>: every axis of length 1 is removed; \<^verbatim>\<open>np.squeeze(None)\<close> is
  an array without axes.\<close>

definition squeeze_shape :: "'a ndarray option \<Rightarrow> nat list" where
  "squeeze_shape d = (case d of None \<Rightarrow> [] | Some a \<Rightarrow> filter (\<lambda>n. n \<noteq> 1) (shape a))"

text \<open>\<^verbatim>\<open>x, y = s[-2:]\<close>: the unpacking needs exactly two values, so at least two axes.\<close>

definition last2 :: "nat list \<Rightarrow> (nat \<times> nat) option" where
  "last2 s =
     (if length s < 2 then None else Some (s ! (length s - 2), s ! (length s - 1)))"

text \<open>\<^verbatim>\<open>a[i, j, :, :]\<close>: four indices need four axes; \<open>i\<close> and \<open>j\<close> must be in range.
  The result keeps the axes from the third on.\<close>

definition plane_offset :: "nat list \<Rightarrow> nat \<Rightarrow> nat \<Rightarrow> nat" where
  "plane_offset s i j = (i * (s ! 1) + j) * prod_list (drop 2 s)"

definition getitem :: "'a ndarray \<Rightarrow> nat \<Rightarrow> nat \<Rightarrow> error + 'a ndarray" where
  "getitem a i j =
     (if length (shape a) < 4 then Inl IndexError
      else if \<not> i < shape a ! 0 \<or> \<not> j < shape a ! 1 then Inl IndexError
      else Inr \<lparr>shape = drop 2 (shape a),
                cells = take (prod_list (drop 2 (shape a)))
                          (drop (plane_offset (shape a) i j) (cells a))\<rparr>)"

text \<open>Assignment broadcasts the value to the shape of the target: leading axes of length 1
  that the target does not have are dropped, missing leading axes are added with length 1,
  and then every axis must have the target's length or length 1.\<close>

fun strip_ones :: "nat \<Rightarrow> nat list \<Rightarrow> nat list" where
  "strip_ones n [] = []"
| "strip_ones n (d # ds) = (if n < length (d # ds) \<and> d = 1 then strip_ones n ds else d # ds)"

fun bcast :: "nat list \<Rightarrow> nat list \<Rightarrow> 'a list \<Rightarrow> 'a list" where
  "bcast (t # ts) (d # ds) xs =
     (if d = t
      then concat (map (\<lambda>i. bcast ts ds (take (prod_list ds) (drop (i * prod_list ds) xs))) [0 ..< t])
      else concat (replicate t (bcast ts ds xs)))"
| "bcast ts ds xs = xs"

definition broadcast :: "nat list \<Rightarrow> 'a ndarray \<Rightarrow> error + 'a list" where
  "broadcast ts v =
     (let vs = strip_ones (length ts) (shape v) in
      if length ts < length vs then Inl ValueError
      else let ds = replicate (length ts - length vs) 1 @ vs in
        if list_all2 (\<lambda>t d. d = t \<or> d = 1) ts ds then Inr (bcast ts ds (cells v))
        else Inl ValueError)"

text \<open>\<^verbatim>\<open>a[i, j, :, :] = v\<close>.\<close>

definition setitem :: "'a ndarray \<Rightarrow> nat \<Rightarrow> nat \<Rightarrow> 'a ndarray \<Rightarrow> error + 'a ndarray" where
  "setitem a i j v =
     (if length (shape a) < 4 then Inl IndexError
      else if \<not> i < shape a ! 0 \<or> \<not> j < shape a ! 1 then Inl IndexError
      else case broadcast (drop 2 (shape a)) v of
          Inl e \<Rightarrow> Inl e
        | Inr blk \<Rightarrow>
            Inr (a\<lparr>cells := take (plane_offset (shape a) i j) (cells a) @ blk
                     @ drop (plane_offset (shape a) i j + prod_list (drop 2 (shape a))) (cells a)\<rparr>))"

subsection \<open>Numbers\<close>

text \<open>A NumPy \<^verbatim>\<open>int64\<close>: arithmetic wraps around.\<close>

definition np_int64 :: "int \<Rightarrow> int" where
  "np_int64 x = (x + 2 ^ 63) mod 2 ^ 64 - 2 ^ 63"

text \<open>\<^verbatim>\<open>np.product(dims)\<close> of a tuple of Python integers is computed in \<^verbatim>\<open>int64\<close>. (A tuple
  with an entry of \<open>2 ^ 63\<close> or more is not an \<^verbatim>\<open>int64\<close> array; this definition says
  nothing of it.)\<close>

definition np_product :: "int list \<Rightarrow> int" where
  "np_product xs = foldl (\<lambda>a b. np_int64 (a * np_int64 b)) 1 xs"

text \<open>\<^verbatim>\<open>int(n / 2)\<close>: the true division gives the binary64 number nearest to the quotient
  (ties to the even significand), which \<^verbatim>\<open>int\<close> then truncates. Below \<open>2 ^ 53\<close> the
  quotient is a binary64 number.\<close>

fun bit_length :: "nat \<Rightarrow> nat" where
  "bit_length n = (if n = 0 then 0 else Suc (bit_length (n div 2)))"

declare bit_length.simps [simp del]

definition int_half :: "nat \<Rightarrow> nat" where
  "int_half n =
     (if bit_length n \<le> 53 then n div 2
      else let e = bit_length n - 53; m = n div 2 ^ e; r = n mod 2 ^ e;
               m' = (if 2 ^ e < 2 * r \<or> (2 * r = 2 ^ e \<and> odd m) then m + 1 else m)
           in m' * 2 ^ (e - 1))"

section \<open>The program\<close>

subsection \<open>\<^verbatim>\<open>make_empty_image\<close>\<close>

text \<open>The header of \<^verbatim>\<open>fits.PrimaryHDU(data=np.zeros((1, 1, 1, 1), dtype=np.float32))\<close>.\<close>

definition primary_header :: header where
  "primary_header =
     [(''SIMPLE'', HBool True), (''BITPIX'', HInt (- 32)), (''NAXIS'', HInt 4),
      (''NAXIS1'', HInt 1), (''NAXIS2'', HInt 1), (''NAXIS3'', HInt 1), (''NAXIS4'', HInt 1),
      (''EXTEND'', HBool True)]"

text \<open>One round of the loop \<^verbatim>\<open>for i, dim in enumerate(dims, 1)\<close>.\<close>

definition dim_cards :: "nat \<Rightarrow> nat \<Rightarrow> header \<Rightarrow> nat \<times> nat \<Rightarrow> header" where
  "dim_cards xdim ydim h p =
     set_card ''CRPIX2'' (HInt (int (int_half ydim)))
       (set_card ''CRPIX1'' (HInt (int (int_half xdim)))
         (set_card (''NAXIS'' @ str_nat (fst p)) (HInt (int (snd p))) h))"

text \<open>The size of the data, as the program computes it, from the four dimensions.\<close>

definition padded_data_size :: "nat list \<Rightarrow> int" where
  "padded_data_size dims =
     (let block_size = 2880;
          data_size = np_int64 (np_product (map int dims) * 4)
      in np_int64 (block_size * np_int64 (np_int64 (np_int64 (data_size - 1) div block_size) + 1)))"

text \<open>
  \<^verbatim>\<open>f.seek(pos); f.write(b"\0")\<close> on the file that holds the header only. A negative
  position is refused. A position inside the header blocks overwrites one byte there and
  leaves the length alone (the bytes of the header blocks are not modelled one by one).
  A position after the header extends the file, with zero bytes, to \<open>pos + 1\<close> bytes.
\<close>

definition seek_write_zero :: "header \<Rightarrow> int \<Rightarrow> error + ('a::zero) fits_file" where
  "seek_write_zero h pos =
     (if pos < 0 then Inl OSError
      else if pos < int (header_size h) then Inr \<lparr>cards = h, body = [], spare = 0\<rparr>
      else let n = nat pos + 1 - header_size h in
        Inr \<lparr>cards = h, body = replicate (n div 4) 0, spare = n mod 4\<rparr>)"

definition make_empty_image ::
  "string list \<Rightarrow> nat \<Rightarrow> string \<Rightarrow> ('a::zero) disk \<Rightarrow> 'a disk \<times> error option" where
  "make_empty_image imlist nstokes outname fs =
     (case imlist of
        [] \<Rightarrow> (fs, Some IndexError)
      | im0 # _ \<Rightarrow>
     (case fs im0 of
        None \<Rightarrow> (fs, Some FileNotFoundError)
      | Some hud \<Rightarrow>
     (case hdu_data hud of
        Inl e \<Rightarrow> (fs, Some e)
      | Inr d \<Rightarrow>
     (case last2 (squeeze_shape d) of
        None \<Rightarrow> (fs, Some ValueError)
      | Some (xdim, ydim) \<Rightarrow>
          let zdim = length imlist;
              wdim = nstokes;
              dims = [xdim, ydim, zdim, wdim];
              header = foldl (dim_cards xdim ydim) primary_header (enumerate 1 dims);
              fs1 = fs(outname \<mapsto> \<lparr>cards = header, body = [], spare = 0\<rparr>);
              header_size = int (header_size header);
              data_size = padded_data_size dims
          in (case seek_write_zero header (np_int64 (np_int64 (header_size + data_size) - 1)) of
                Inl e \<Rightarrow> (fs1, Some e)
              | Inr f \<Rightarrow> (fs1(outname \<mapsto> f), None))))))"

subsection \<open>\<^verbatim>\<open>update_fits_header\<close>\<close>

definition update_fits_header ::
  "string \<Rightarrow> (string \<times> hval) list \<Rightarrow> 'a disk \<Rightarrow> 'a disk \<times> error option" where
  "update_fits_header cube_path header_dict fs =
     (case fs cube_path of
        None \<Rightarrow> (fs, Some FileNotFoundError)
      | Some hud \<Rightarrow>
          (fs(cube_path \<mapsto> hud\<lparr>cards := foldl (\<lambda>h (key, val). set_card key val h) (cards hud) header_dict\<rparr>),
           None))"

subsection \<open>Filling one channel\<close>

text \<open>The right-hand side \<^verbatim>\<open>hdu[0].data[ss, 0, :, :]\<close>.\<close>

definition plane_of :: "'a fits_file \<Rightarrow> nat \<Rightarrow> error + 'a ndarray" where
  "plane_of hdu ss =
     (case hdu_data hdu of
        Inl e \<Rightarrow> Inl e
      | Inr None \<Rightarrow> Inl TypeError
      | Inr (Some a) \<Rightarrow> getitem a ss 0)"

text \<open>The statement \<^verbatim>\<open>outdata[ss, ii, :, :] = hdu[0].data[ss, 0, :, :]\<close>: the right-hand
  side is evaluated first.\<close>

definition assign_plane ::
  "'a fits_file \<Rightarrow> nat \<Rightarrow> nat \<Rightarrow> 'a ndarray option \<Rightarrow> error + 'a ndarray option" where
  "assign_plane hdu ii ss outdata =
     (case plane_of hdu ss of
        Inl e \<Rightarrow> Inl e
      | Inr v \<Rightarrow>
     (case outdata of
        None \<Rightarrow> Inl TypeError
      | Some a \<Rightarrow>
     (case setitem a ss ii v of
        Inl e \<Rightarrow> Inl e
      | Inr a' \<Rightarrow> Inr (Some a'))))"

text \<open>The loop \<^verbatim>\<open>for ss in range(nstokes)\<close>, over the list of the values of \<^verbatim>\<open>ss\<close>. An
  exception ends it and keeps what was assigned before.\<close>

fun copy_planes ::
  "'a fits_file \<Rightarrow> nat \<Rightarrow> nat list \<Rightarrow> 'a ndarray option \<Rightarrow> 'a ndarray option \<times> error option" where
  "copy_planes hdu ii [] outdata = (outdata, None)"
| "copy_planes hdu ii (ss # rest) outdata =
     (case assign_plane hdu ii ss outdata of
        Inl e \<Rightarrow> (outdata, Some e)
      | Inr outdata' \<Rightarrow> copy_planes hdu ii rest outdata')"

definition insert_channel ::
  "nat \<Rightarrow> string \<Rightarrow> string list \<Rightarrow> nat \<Rightarrow> nat \<Rightarrow> 'a disk \<Rightarrow> 'a disk \<times> error option" where
  "insert_channel channo outname imlist max_chan nstokes fs =
     (case fs outname of
        None \<Rightarrow> (fs, Some FileNotFoundError)
      | Some outhdu \<Rightarrow>
     (case hdu_data outhdu of
        Inl e \<Rightarrow> (fs, Some e)
      | Inr outdata \<Rightarrow>
          if \<not> channo < length imlist then (fs, Some IndexError)
          else
     (case fs (imlist ! channo) of
        None \<Rightarrow> (fs, Some FileNotFoundError)
      | Some hdu \<Rightarrow>
          let (outdata', err) = copy_planes hdu channo [0 ..< nstokes] outdata
          in (fs(outname \<mapsto> store_data outhdu outdata'), err))))"

subsection \<open>\<^verbatim>\<open>fill_cube_with_images\<close>\<close>

text \<open>The loop \<^verbatim>\<open>for ii in range(0, max_chan)\<close>. The output stays open and mapped; each
  image is opened from the disk as the assignments so far have left it.\<close>

fun fill_channels ::
  "string \<Rightarrow> string list \<Rightarrow> nat \<Rightarrow> 'a fits_file \<Rightarrow> nat list \<Rightarrow> 'a ndarray option \<Rightarrow> 'a disk
     \<Rightarrow> ('a ndarray option \<times> 'a disk) \<times> error option" where
  "fill_channels outname imlist nstokes outhdu [] outdata fs = ((outdata, fs), None)"
| "fill_channels outname imlist nstokes outhdu (ii # rest) outdata fs =
     (case fs (imlist ! ii) of
        None \<Rightarrow> ((outdata, fs), Some FileNotFoundError)
      | Some hdu \<Rightarrow>
          let (outdata', err) = copy_planes hdu ii [0 ..< nstokes] outdata;
              fs' = fs(outname \<mapsto> store_data outhdu outdata')
          in (case err of
                Some e \<Rightarrow> ((outdata', fs'), Some e)
              | None \<Rightarrow> fill_channels outname imlist nstokes outhdu rest outdata' fs'))"

text \<open>\<^verbatim>\<open>int(outdata.shape[1] + 1)\<close>.\<close>

definition highest_channel :: "'a ndarray option \<Rightarrow> error + int" where
  "highest_channel outdata =
     (case outdata of
        None \<Rightarrow> Inl AttributeError
      | Some a \<Rightarrow> if length (shape a) < 2 then Inl IndexError else Inr (int (shape a ! 1) + 1))"

definition fitsheader :: "int \<Rightarrow> (string \<times> hval) list" where
  "fitsheader naxis3 =
     [(''CRPIX3'', HInt 1), (''NAXIS3'', HInt naxis3), (''CTYPE3'', HStr ''FREQ'')]"

definition fill_cube_with_images ::
  "string list \<Rightarrow> nat \<Rightarrow> string \<Rightarrow> 'a disk \<Rightarrow> 'a disk \<times> error option" where
  "fill_cube_with_images imlist nstokes outname fs =
     (case fs outname of
        None \<Rightarrow> (fs, Some FileNotFoundError)
      | Some outhdu \<Rightarrow>
     (case hdu_data outhdu of
        Inl e \<Rightarrow> (fs, Some e)
      | Inr outdata \<Rightarrow>
          let max_chan = length imlist in
     (case fill_channels outname imlist nstokes outhdu [0 ..< max_chan] outdata fs of
        ((outdata', fs'), Some e) \<Rightarrow> (fs', Some e)
      | ((outdata', fs'), None) \<Rightarrow>
     (case highest_channel outdata' of
        Inl e \<Rightarrow> (fs', Some e)
      | Inr hc \<Rightarrow> update_fits_header outname (fitsheader hc) fs'))))"

subsection \<open>\<^verbatim>\<open>fill_cube_with_images_multiprocess\<close>\<close>

text \<open>
  The pool carries out one call of \<^verbatim>\<open>insert_channel\<close> for each channel of
  \<^verbatim>\<open>range(max_chan)\<close>, in an order of its own choosing: \<open>sched\<close> is that order, a
  permutation of the channels. A call that raises keeps its exception in its result and
  the other calls run all the same. \<^verbatim>\<open>pool.join()\<close> returns when all have run.
\<close>

fun run_pool ::
  "nat list \<Rightarrow> string \<Rightarrow> string list \<Rightarrow> nat \<Rightarrow> nat \<Rightarrow> 'a disk
     \<Rightarrow> 'a disk \<times> (nat \<times> error option) list" where
  "run_pool [] outname imlist max_chan nstokes fs = (fs, [])"
| "run_pool (chan # rest) outname imlist max_chan nstokes fs =
     (let (fs1, r) = insert_channel chan outname imlist max_chan nstokes fs;
          (fs2, rs) = run_pool rest outname imlist max_chan nstokes fs1
      in (fs2, (chan, r) # rs))"

text \<open>\<^verbatim>\<open>for s in sol: s.get()\<close>: the results are asked for in the order of submission, and
  the first that holds an exception raises it.\<close>

fun get_all :: "(nat \<times> error option) list \<Rightarrow> nat list \<Rightarrow> error option" where
  "get_all sol [] = None"
| "get_all sol (chan # rest) =
     (case map_of sol chan of
        Some (Some e) \<Rightarrow> Some e
      | _ \<Rightarrow> get_all sol rest)"

definition fill_cube_with_images_multiprocess ::
  "nat list \<Rightarrow> string list \<Rightarrow> nat \<Rightarrow> string \<Rightarrow> 'a disk \<Rightarrow> 'a disk \<times> error option" where
  "fill_cube_with_images_multiprocess sched imlist nstokes outname fs =
     (let max_chan = length imlist;
          (fs1, sol) = run_pool sched outname imlist max_chan nstokes fs
      in (case get_all sol [0 ..< max_chan] of
            Some e \<Rightarrow> (fs1, Some e)
          | None \<Rightarrow> update_fits_header outname (fitsheader (int max_chan)) fs1))"

section \<open>A small run\<close>

text \<open>A FITS file of \<^verbatim>\<open>float32\<close> elements whose array has the given shape (in the order of
  \<^verbatim>\<open>data.shape\<close>) and the given elements.\<close>

definition image_file :: "nat list \<Rightarrow> 'a list \<Rightarrow> 'a fits_file" where
  "image_file shp cs =
     \<lparr>cards = [(''SIMPLE'', HBool True), (''BITPIX'', HInt (- 32)),
                (''NAXIS'', HInt (int (length shp)))]
              @ map (\<lambda>(i, n). (''NAXIS'' @ str_nat i, HInt (int n))) (enumerate 1 (rev shp)),
      body = cs, spare = 0\<rparr>"

text \<open>Three images of 4 by 4 pixels in 2 planes; plane \<open>p\<close> of image \<open>i\<close> holds the value
  \<open>(i + 1) * 10 + p\<close> everywhere.\<close>

definition chan_image :: "nat \<Rightarrow> int fits_file" where
  "chan_image i =
     image_file [2, 1, 4, 4] (replicate 16 (int ((i + 1) * 10)) @ replicate 16 (int ((i + 1) * 10 + 1)))"

definition chan_list :: "string list" where
  "chan_list = [''chan000.fits'', ''chan001.fits'', ''chan002.fits'']"

definition chan_disk :: "int disk" where
  "chan_disk =
     map_of [(''chan000.fits'', chan_image 0), (''chan001.fits'', chan_image 1),
             (''chan002.fits'', chan_image 2)]"

text \<open>An image without pixels: 9007199254740995 rows (\<open>2 ^ 53 + 3\<close>) of length 0.\<close>

definition wide_disk :: "int disk" where
  "wide_disk = map_of [(''wide.fits'', image_file [9007199254740995, 0] [])]"

section \<open>Vocabulary of the statements\<close>

text \<open>The positions, in the data that follow the header, of the cells \<^verbatim>\<open>a[p, i, :, :]\<close> of
  an array of shape \<open>s\<close>, and of the cells \<^verbatim>\<open>a[p, i, :, :]\<close> for \<open>p\<close> in \<^verbatim>\<open>range(planes)\<close>.\<close>

definition plane_cells :: "nat list \<Rightarrow> nat \<Rightarrow> nat \<Rightarrow> nat set" where
  "plane_cells s p i = {plane_offset s p i ..< plane_offset s p i + prod_list (drop 2 s)}"

definition channel_cells :: "nat list \<Rightarrow> nat \<Rightarrow> nat \<Rightarrow> nat set" where
  "channel_cells s planes i = (\<Union>p \<in> {..< planes}. plane_cells s p i)"

text \<open>An array holds as many elements as its shape says.\<close>

definition wf_array :: "'a ndarray \<Rightarrow> bool" where
  "wf_array a \<longleftrightarrow> length (cells a) = prod_list (shape a)"

subsection \<open>The writes of a fill, one by one\<close>

text \<open>
  What one round of the loop over the planes does to an output array of shape \<open>s\<close> depends
  on the image, the channel and \<open>s\<close> alone: it raises, or it overwrites one block of cells.
  \<open>plan\<close> lists the blocks that the loop writes before it ends, with the exception that
  ends it. \<open>apply_writes\<close> carries the writes out, \<open>written\<close> looks up what they leave at one
  position.
\<close>

definition plane_write :: "'a fits_file \<Rightarrow> nat \<Rightarrow> nat list \<Rightarrow> nat \<Rightarrow> error + nat \<times> 'a list" where
  "plane_write hdu ii s ss =
     (case plane_of hdu ss of
        Inl e \<Rightarrow> Inl e
      | Inr v \<Rightarrow>
          if length s < 4 then Inl IndexError
          else if \<not> ss < s ! 0 \<or> \<not> ii < s ! 1 then Inl IndexError
          else (case broadcast (drop 2 s) v of
                  Inl e \<Rightarrow> Inl e
                | Inr blk \<Rightarrow> Inr (plane_offset s ss ii, blk)))"

fun plan :: "'a fits_file \<Rightarrow> nat \<Rightarrow> nat list \<Rightarrow> nat list \<Rightarrow> (nat \<times> 'a list) list \<times> error option" where
  "plan hdu ii s [] = ([], None)"
| "plan hdu ii s (ss # rest) =
     (case plane_write hdu ii s ss of
        Inl e \<Rightarrow> ([], Some e)
      | Inr w \<Rightarrow> (w # fst (plan hdu ii s rest), snd (plan hdu ii s rest)))"

definition write_block :: "'a list \<Rightarrow> nat \<times> 'a list \<Rightarrow> 'a list" where
  "write_block cs w = take (fst w) cs @ snd w @ drop (fst w + length (snd w)) cs"

definition apply_writes :: "(nat \<times> 'a list) list \<Rightarrow> 'a list \<Rightarrow> 'a list" where
  "apply_writes ws cs = foldl write_block cs ws"

fun written :: "(nat \<times> 'a list) list \<Rightarrow> nat \<Rightarrow> 'a option" where
  "written [] k = None"
| "written (w # ws) k =
     (case written ws k of
        Some v \<Rightarrow> Some v
      | None \<Rightarrow> if fst w \<le> k \<and> k < fst w + length (snd w) then Some (snd w ! (k - fst w)) else None)"

text \<open>A write fits a list of \<open>n\<close> cells.\<close>

definition fits_in :: "nat \<Rightarrow> nat \<times> 'a list \<Rightarrow> bool" where
  "fits_in n w \<longleftrightarrow> fst w + length (snd w) \<le> n"

text \<open>The writes and the exception of one call of \<^verbatim>\<open>insert_channel\<close>, read off the disk it
  starts from.\<close>

definition chan_plan ::
  "nat \<Rightarrow> string \<Rightarrow> string list \<Rightarrow> nat \<Rightarrow> 'a disk \<Rightarrow> (nat \<times> 'a list) list \<times> error option" where
  "chan_plan channo outname imlist nstokes fs =
     (case fs outname of
        None \<Rightarrow> ([], Some FileNotFoundError)
      | Some outhdu \<Rightarrow>
     (case hdu_data outhdu of
        Inl e \<Rightarrow> ([], Some e)
      | Inr outdata \<Rightarrow>
          if \<not> channo < length imlist then ([], Some IndexError)
          else
     (case fs (imlist ! channo) of
        None \<Rightarrow> ([], Some FileNotFoundError)
      | Some hdu \<Rightarrow>
     (case outdata of
        None \<Rightarrow> ([], snd (copy_planes hdu channo [0 ..< nstokes] None))
      | Some a \<Rightarrow> plan hdu channo (shape a) [0 ..< nstokes]))))"

text \<open>The skeleton that \<^verbatim>\<open>make_empty_image\<close> makes of the three images above, with two
  planes: one block of header, and one block of data for the 96 elements.\<close>

definition skeleton_file :: "int fits_file" where
  "skeleton_file =
     \<lparr>cards = [(''SIMPLE'', HBool True), (''BITPIX'', HInt (- 32)), (''NAXIS'', HInt 4),
                (''NAXIS1'', HInt 4), (''NAXIS2'', HInt 4), (''NAXIS3'', HInt 3),
                (''NAXIS4'', HInt 2), (''EXTEND'', HBool True),
                (''CRPIX1'', HInt 2), (''CRPIX2'', HInt 2)],
      body = replicate 720 0, spare = 0\<rparr>"

definition skeleton_disk :: "int disk" where
  "skeleton_disk = chan_disk(''concat.fits'' \<mapsto> skeleton_file)"

text \<open>The writes and the exception of the loop over the channels of
  \<^verbatim>\<open>fill_cube_with_images\<close>, which ends at the first channel that raises: \<open>P c\<close> is what
  channel \<open>c\<close> writes and raises.\<close>

fun seq_plan ::
  "(nat \<Rightarrow> (nat \<times> 'a list) list \<times> error option) \<Rightarrow> nat list \<Rightarrow> (nat \<times> 'a list) list \<times> error option" where
  "seq_plan P [] = ([], None)"
| "seq_plan P (c # cs) =
     (case snd (P c) of
        Some e \<Rightarrow> (fst (P c), Some e)
      | None \<Rightarrow> (fst (P c) @ fst (seq_plan P cs), snd (seq_plan P cs)))"

text \<open>The data of the small run once every plane of every image is copied, and the file
  that holds them under a header whose \<^verbatim>\<open>NAXIS3\<close> card is \<open>n\<close>.\<close>

definition filled_body :: "int list" where
  "filled_body =
     replicate 16 10 @ replicate 16 20 @ replicate 16 30
     @ replicate 16 11 @ replicate 16 21 @ replicate 16 31 @ replicate 624 0"

definition filled_file :: "int \<Rightarrow> int fits_file" where
  "filled_file n =
     \<lparr>cards = [(''SIMPLE'', HBool True), (''BITPIX'', HInt (- 32)), (''NAXIS'', HInt 4),
                (''NAXIS1'', HInt 4), (''NAXIS2'', HInt 4), (''NAXIS3'', HInt n),
                (''NAXIS4'', HInt 2), (''EXTEND'', HBool True),
                (''CRPIX1'', HInt 2), (''CRPIX2'', HInt 2),
                (''CRPIX3'', HInt 1), (''CTYPE3'', HStr ''FREQ'')],
      body = filled_body, spare = 0\<rparr>"

text \<open>An image that is not square: one plane of 2 rows and 3 columns that holds the value
  10 everywhere.\<close>

definition rect_disk :: "int disk" where
  "rect_disk = map_of [(''rect.fits'', image_file [1, 1, 2, 3] (replicate 6 10))]"

text \<open>The skeleton of the small run on a disk where the second image is missing.\<close>

definition gap_disk :: "int disk" where
  "gap_disk = skeleton_disk(''chan001.fits'' := None)"

section \<open>Keywords, headers and numbers\<close>

lemma str_nat_digit: "n < 10 \<Longrightarrow> str_nat n = [''0123456789'' ! n]"
  by (simp add: str_nat.simps)

lemma str_nat_small:
  "str_nat (Suc 0) = ''1''" "str_nat 2 = ''2''" "str_nat 3 = ''3''" "str_nat 4 = ''4''"
  by (simp_all add: str_nat_digit)

lemma str_nat_Suc:
  "str_nat (Suc (Suc 0)) = ''2''" "str_nat (Suc (Suc (Suc 0))) = ''3''"
  "str_nat (Suc (Suc (Suc (Suc 0)))) = ''4''"
  by (simp_all add: str_nat_digit)

lemma enumerate4: "enumerate 1 [x, y, z, w] = [(1, x), (2, y), (3, z), (4, w)]"
  by (simp add: enumerate_simps)

lemma skeleton_header:
  "foldl (dim_cards x y) primary_header (enumerate 1 [x, y, z, w]) =
     [(''SIMPLE'', HBool True), (''BITPIX'', HInt (- 32)), (''NAXIS'', HInt 4),
      (''NAXIS1'', HInt (int x)), (''NAXIS2'', HInt (int y)), (''NAXIS3'', HInt (int z)),
      (''NAXIS4'', HInt (int w)), (''EXTEND'', HBool True),
      (''CRPIX1'', HInt (int (int_half x))), (''CRPIX2'', HInt (int (int_half y)))]"
  unfolding enumerate4 by (simp add: dim_cards_def primary_header_def str_nat_small)

lemma np_int64_id: "- (2 ^ 63) \<le> x \<Longrightarrow> x < 2 ^ 63 \<Longrightarrow> np_int64 x = x"
  unfolding np_int64_def by (simp add: mod_pos_pos_trivial)

lemma np_int64_mod: "np_int64 x mod 2 ^ 64 = x mod 2 ^ 64"
proof -
  have "np_int64 x mod 2 ^ 64 = ((x + 2 ^ 63) mod 2 ^ 64 - 2 ^ 63 mod 2 ^ 64) mod 2 ^ 64"
    unfolding np_int64_def by (simp only: mod_diff_right_eq)
  also have "\<dots> = (x + 2 ^ 63 - 2 ^ 63) mod 2 ^ 64"
    by (simp only: mod_diff_eq)
  finally show ?thesis by simp
qed

lemma np_int64_cong: "x mod 2 ^ 64 = y mod 2 ^ 64 \<Longrightarrow> np_int64 x = np_int64 y"
proof -
  assume h: "x mod 2 ^ 64 = y mod 2 ^ 64"
  have "(x + 2 ^ 63) mod 2 ^ 64 = (x mod 2 ^ 64 + 2 ^ 63) mod 2 ^ 64"
    by (simp only: mod_add_left_eq)
  also have "\<dots> = (y + 2 ^ 63) mod 2 ^ 64"
    unfolding h by (simp only: mod_add_left_eq)
  finally show ?thesis unfolding np_int64_def by simp
qed

lemma np_int64_mult: "np_int64 (np_int64 a * np_int64 b) = np_int64 (a * b)"
  by (rule np_int64_cong) (metis mod_mult_eq np_int64_mod)

lemma np_product_wrap: "foldl (\<lambda>a b. np_int64 (a * np_int64 b)) (np_int64 c) xs = np_int64 (c * prod_list xs)"
proof (induction xs arbitrary: c)
  case Nil
  then show ?case by simp
next
  case (Cons x xs)
  have "foldl (\<lambda>a b. np_int64 (a * np_int64 b)) (np_int64 (np_int64 c * np_int64 x)) xs
          = np_int64 (np_int64 c * np_int64 x * prod_list xs)"
    by (rule Cons.IH)
  also have "\<dots> = np_int64 (c * x * prod_list xs)"
    by (rule np_int64_cong) (metis (no_types) mod_mult_left_eq np_int64_mod np_int64_mult)
  finally show ?case by (simp add: mult.assoc)
qed

lemma np_product_eq: "np_product xs = np_int64 (prod_list xs)"
proof -
  have "np_int64 1 = 1" by (simp add: np_int64_def)
  then show ?thesis using np_product_wrap[of 1 xs] by (simp add: np_product_def)
qed

lemma ceil_2880: "\<lceil>real_of_int n / 2880\<rceil> = (n - 1) div 2880 + 1"
proof (rule ceiling_unique)
  have a: "2880 * ((n - 1) div 2880) \<le> n - 1" by simp
  have b: "n - 1 < 2880 * ((n - 1) div 2880) + 2880"
    using pos_mod_bound[of 2880 "n - 1"] mult_div_mod_eq[of 2880 "n - 1"] by linarith
  have "real_of_int (2880 * ((n - 1) div 2880)) < real_of_int n" using a by linarith
  then show "real_of_int ((n - 1) div 2880 + 1) - 1 < real_of_int n / 2880" by simp
  have "real_of_int n \<le> real_of_int (2880 * ((n - 1) div 2880) + 2880)" using b by linarith
  then show "real_of_int n / 2880 \<le> real_of_int ((n - 1) div 2880 + 1)" by simp
qed

text \<open>Without overflow the padded size is the size rounded up to the block.\<close>

lemma padded_data_size_exact:
  assumes "2880 * ((int (prod_list dims) * 4 - 1) div 2880 + 1) < 2 ^ 63"
  shows "padded_data_size dims = 2880 * ((int (prod_list dims) * 4 - 1) div 2880 + 1)"
proof -
  define d where "d = int (prod_list dims) * 4"
  have d0: "0 \<le> d" by (simp add: d_def)
  have q0: "- 1 \<le> (d - 1) div 2880"
    using d0 by (simp add: pos_imp_zdiv_neg_iff div_int_pos_iff) 
  have up: "d \<le> 2880 * ((d - 1) div 2880 + 1)"
  proof -
    have "(d - 1) mod 2880 < 2880" by simp
    then have "d \<le> 2880 * ((d - 1) div 2880) + 2880"
      using mult_div_mod_eq[of 2880 "d - 1"] by linarith
    then show ?thesis by (simp add: algebra_simps)
  qed
  have lim: "2880 * ((d - 1) div 2880 + 1) < 2 ^ 63" using assms by (simp add: d_def)
  have dlt: "d < 2 ^ 63" using up lim by linarith
  have plt: "int (prod_list dims) < 2 ^ 63" using dlt by (simp add: d_def)
  have prod_int: "prod_list (map int dims) = int (prod_list dims)"
    by (induction dims) simp_all
  have 1: "np_product (map int dims) = int (prod_list dims)"
    using plt by (simp add: np_product_eq prod_int np_int64_id)
  have 2: "np_int64 d = d"
    using d0 dlt by (simp add: np_int64_id)
  have 3: "np_int64 (d - 1) = d - 1" using d0 dlt by (simp add: np_int64_id)
  have lim': "2880 * ((d - 1) div 2880) + 2880 < 2 ^ 63" using lim by (simp add: algebra_simps)
  have qlt: "(d - 1) div 2880 + 1 < 2 ^ 63" using lim' q0 by linarith
  have 4: "np_int64 ((d - 1) div 2880) = (d - 1) div 2880" using q0 qlt by (simp add: np_int64_id)
  have 5: "np_int64 ((d - 1) div 2880 + 1) = (d - 1) div 2880 + 1" using q0 qlt by (simp add: np_int64_id)
  have 6: "np_int64 (2880 * ((d - 1) div 2880 + 1)) = 2880 * ((d - 1) div 2880 + 1)"
    using q0 lim by (simp add: np_int64_id)
  show ?thesis
    unfolding padded_data_size_def Let_def 1 d_def[symmetric] by (simp only: 2 3 4 5 6)
qed

section \<open>The skeleton written by \<^verbatim>\<open>make_empty_image\<close>\<close>

lemma header_size_skeleton:
  "header_size (foldl (dim_cards x y) primary_header (enumerate 1 [x, y, z, w])) = 2880"
  unfolding skeleton_header by (simp add: header_size_def)



lemma make_empty_image_unfold:
  assumes "imlist \<noteq> []" and "fs (hd imlist) = Some hud" and "hdu_data hud = Inr d"
    and "last2 (squeeze_shape d) = Some (X, Y)"
  shows "make_empty_image imlist P outname fs =
     (case seek_write_zero (foldl (dim_cards X Y) primary_header (enumerate 1 [X, Y, length imlist, P]))
             (np_int64 (np_int64 (int (header_size (foldl (dim_cards X Y) primary_header
                  (enumerate 1 [X, Y, length imlist, P]))) + padded_data_size [X, Y, length imlist, P]) - 1)) of
        Inl e \<Rightarrow> (fs(outname \<mapsto> \<lparr>cards = foldl (dim_cards X Y) primary_header
                    (enumerate 1 [X, Y, length imlist, P]), body = [], spare = 0\<rparr>), Some e)
      | Inr f \<Rightarrow> (fs(outname \<mapsto> f), None))"
proof -
  obtain im0 rest where il: "imlist = im0 # rest" using assms(1) by (cases imlist) auto
  show ?thesis using assms(2-4) unfolding il
    by (simp add: make_empty_image_def Let_def split: sum.split)
qed


lemma hdu_shape_image_4d:
  "hdu_shape (cards (image_file [a, b, c, d] cs)) = [a, b, c, d]"
  by (simp add: hdu_shape_def image_file_def header_nat_def enumerate_simps str_nat_small str_nat_Suc upt_rec)

lemma hdu_data_chan_image:
  "hdu_data (chan_image i) = Inr (Some \<lparr>shape = [2, 1, 4, 4],
      cells = replicate 16 (int ((i + 1) * 10)) @ replicate 16 (int ((i + 1) * 10 + 1))\<rparr>)"
  unfolding hdu_data_def chan_image_def Let_def hdu_shape_image_4d
  by (simp add: image_file_def)

lemma chan_first: "chan_disk (hd chan_list) = Some (chan_image 0)"
  by (simp add: chan_disk_def chan_list_def)

lemma chan_last2:
  "last2 (squeeze_shape (Some \<lparr>shape = [2, 1, 4, 4], cells = cs\<rparr>)) = Some (4, 4)"
  by (simp add: last2_def squeeze_shape_def)


lemma bit_length_le: "bit_length n \<le> k \<longleftrightarrow> n < 2 ^ k"
proof (induction k arbitrary: n)
  case 0
  show ?case by (simp add: bit_length.simps[of n])
next
  case (Suc k)
  have "n div 2 < 2 ^ k \<longleftrightarrow> n < 2 ^ Suc k" by auto
  then show ?case using Suc[of "n div 2"] by (simp add: bit_length.simps[of n])
qed

lemma int_half_small: "n < 2 ^ 53 \<Longrightarrow> int_half n = n div 2"
  by (simp add: int_half_def bit_length_le)

lemma bit_length_big: "bit_length 9007199254740995 = 54"
proof -
  have "bit_length 9007199254740995 \<le> 54" unfolding bit_length_le by simp
  moreover have "\<not> bit_length 9007199254740995 \<le> 53" unfolding bit_length_le by simp
  ultimately show ?thesis by linarith
qed

lemma int_half_big: "int_half 9007199254740995 = 4503599627370498"
  unfolding int_half_def bit_length_big Let_def by simp


lemma make_empty_image_cards:
  assumes "imlist \<noteq> []" and "fs (hd imlist) = Some hud" and "hdu_data hud = Inr d"
    and "last2 (squeeze_shape d) = Some (X, Y)"
  shows "\<exists>f. fst (make_empty_image imlist P outname fs) outname = Some f
           \<and> cards f = foldl (dim_cards X Y) primary_header (enumerate 1 [X, Y, length imlist, P])"
  unfolding make_empty_image_unfold[where imlist=imlist and fs=fs and P=P and outname=outname, OF assms]
  by (auto simp: seek_write_zero_def Let_def split: sum.split)


lemma hdu_shape_image_2d: "hdu_shape (cards (image_file [a, b] cs)) = [a, b]"
  by (simp add: hdu_shape_def image_file_def header_nat_def enumerate_simps str_nat_small str_nat_Suc upt_rec)

lemma hdu_data_wide:
  "hdu_data (image_file [9007199254740995, 0] ([]::int list))
     = Inr (Some \<lparr>shape = [9007199254740995, 0], cells = []\<rparr>)"
  unfolding hdu_data_def Let_def hdu_shape_image_2d by (simp add: image_file_def)

text \<open>Without overflow the skeleton is the header and a whole number of blocks of zeros.\<close>

lemma make_empty_image_run:
  fixes fs :: "('a::zero) disk"
  assumes "imlist \<noteq> []" and "fs (hd imlist) = Some hud" and "hdu_data hud = Inr d"
    and "last2 (squeeze_shape d) = Some (X, Y)"
    and "2880 + \<lceil>real (X * Y * length imlist * P * 4) / 2880\<rceil> * 2880 < 2 ^ 63"
  shows "\<exists>k. X * Y * length imlist * P \<le> k \<and>
     make_empty_image imlist P outname fs
       = (fs(outname \<mapsto> \<lparr>cards = foldl (dim_cards X Y) primary_header (enumerate 1 [X, Y, length imlist, P]),
                          body = replicate k 0, spare = 0\<rparr>), None)"
proof -
  define n where "n = X * Y * length imlist * P"
  define D where "D = int (n * 4)"
  define hdr where "hdr = foldl (dim_cards X Y) primary_header (enumerate 1 [X, Y, length imlist, P])"
  define q where "q = (D - 1) div 2880 + 1"
  define S where "S = 2880 * q"
  have ceilD: "\<lceil>real (X * Y * length imlist * P * 4) / 2880\<rceil> * 2880 = S"
    using ceil_2880[of D] by (simp add: D_def S_def q_def n_def)
  have lim: "2880 + S < 2 ^ 63" using assms(5) unfolding ceilD .
  have prodD: "int (prod_list [X, Y, length imlist, P]) * 4 = D" by (simp add: D_def n_def)
  have D0: "0 \<le> D" by (simp add: D_def)
  then have "- 1 \<le> (D - 1) div 2880" by (simp add: pos_imp_zdiv_neg_iff div_int_pos_iff)
  then have q0: "0 \<le> q" by (simp add: q_def)
  then have S0: "0 \<le> S" by (simp add: S_def)
  have pad: "padded_data_size [X, Y, length imlist, P] = S"
    using padded_data_size_exact[of "[X, Y, length imlist, P]"] lim S0
    unfolding prodD S_def q_def by simp
  have hs: "header_size hdr = 2880" unfolding hdr_def by (rule header_size_skeleton)
  have pos: "np_int64 (np_int64 (2880 + S) - 1) = 2879 + S"
    using lim S0 by (simp add: np_int64_id)
  have nS: "nat (2879 + S) + 1 - 2880 = 4 * (720 * nat q)"
    using q0 unfolding S_def by (simp add: nat_mult_distrib nat_add_distrib)
  have f: "seek_write_zero hdr (2879 + S)
      = Inr \<lparr>cards = hdr, body = replicate (720 * nat q) (0::'a), spare = 0\<rparr>"
  proof (cases "q = 0")
    case True
    then show ?thesis by (simp add: seek_write_zero_def hs S_def)
  next
    case False
    then have "0 < q" using q0 by simp
    then have "\<not> 2879 + S < 2880" "\<not> 2879 + S < 0" unfolding S_def by simp_all
    then show ?thesis
      unfolding seek_write_zero_def hs Let_def nS by simp
  qed
  have run: "make_empty_image imlist P outname fs
      = (fs(outname \<mapsto> \<lparr>cards = hdr, body = replicate (720 * nat q) 0, spare = 0\<rparr>), None)"
    unfolding make_empty_image_unfold[where imlist=imlist and fs=fs and P=P and outname=outname, OF assms(1-4)] hdr_def[symmetric] hs pad
    by (simp only: of_nat_numeral pos f sum.case)
  have "D \<le> 2880 * ((D - 1) div 2880) + 2880"
  proof -
    have "D - 1 = 2880 * ((D - 1) div 2880) + (D - 1) mod 2880" by simp
    moreover have "(D - 1) mod 2880 < 2880" by simp
    ultimately show ?thesis by linarith
  qed
  then have "D \<le> S" unfolding S_def q_def by (simp add: algebra_simps)
  then have "int (n * 4) \<le> int (4 * (720 * nat q))"
    using q0 unfolding D_def S_def by simp
  then have "n \<le> 720 * nat q" by linarith
  then show ?thesis using run unfolding n_def hdr_def by blast
qed

subsection \<open>C1: the size of the skeleton\<close>




subsection \<open>C8: the reference pixel of the two image axes\<close>

text \<open>
  Claim C8. For a first image whose squeezed shape ends in \<open>(X, Y)\<close>, the header that
  \<^verbatim>\<open>make_empty_image\<close> writes has \<^verbatim>\<open>CRPIX1\<close> \<open>= \<lfloor>X / 2\<rfloor>\<close> and \<^verbatim>\<open>CRPIX2\<close> \<open>= \<lfloor>Y / 2\<rfloor>\<close>. The program
  computes \<^verbatim>\<open>int(xdim/2)\<close> through a binary64 quotient, which is exact for \<open>X\<close> and \<open>Y\<close> below
  \<open>2 ^ 53\<close>. The header is on the disk also when the later extension of the file fails.
\<close>

theorem make_empty_image_crpix:
  assumes "imlist \<noteq> []" and "fs (hd imlist) = Some hud" and "hdu_data hud = Inr d"
    and "last2 (squeeze_shape d) = Some (X, Y)" and "X < 2 ^ 53" and "Y < 2 ^ 53"
  shows "\<exists>f. fst (make_empty_image imlist P outname fs) outname = Some f
           \<and> map_of (cards f) ''CRPIX1'' = Some (HInt (int (X div 2)))
           \<and> map_of (cards f) ''CRPIX2'' = Some (HInt (int (Y div 2)))"
proof -
  obtain f where f: "fst (make_empty_image imlist P outname fs) outname = Some f"
    and c: "cards f = foldl (dim_cards X Y) primary_header (enumerate 1 [X, Y, length imlist, P])"
    using make_empty_image_cards[where imlist=imlist and fs=fs and P=P and outname=outname, OF assms(1-4)]
    by blast
  have "map_of (cards f) ''CRPIX1'' = Some (HInt (int (X div 2)))"
    unfolding c skeleton_header using assms(5) by (simp add: int_half_small)
  moreover have "map_of (cards f) ''CRPIX2'' = Some (HInt (int (Y div 2)))"
    unfolding c skeleton_header using assms(6) by (simp add: int_half_small)
  ultimately show ?thesis using f by blast
qed

theorem make_empty_image_crpix_witness:
  "\<exists>f. fst (make_empty_image chan_list 2 ''concat.fits'' chan_disk) ''concat.fits'' = Some f
       \<and> map_of (cards f) ''CRPIX1'' = Some (HInt 2)
       \<and> map_of (cards f) ''CRPIX2'' = Some (HInt 2)"
proof -
  have ne: "chan_list \<noteq> []" by (simp add: chan_list_def)
  have b: "(4::nat) < 2 ^ 53" by simp
  show ?thesis
    using make_empty_image_crpix[where imlist=chan_list and fs=chan_disk and P=2
        and outname="''concat.fits''", OF ne chan_first hdu_data_chan_image chan_last2 b b]
    by simp
qed

text \<open>An axis of \<open>2 ^ 53 + 3\<close> rows: the quotient is rounded to the even neighbour, one above
  the floor.\<close>

theorem make_empty_image_crpix_counterexample:
  "map_of (cards (the (fst (make_empty_image [''wide.fits''] 1 ''concat.fits'' wide_disk) ''concat.fits'')))
       ''CRPIX1'' = Some (HInt 4503599627370498)
   \<and> (4503599627370498::int) \<noteq> 9007199254740995 div 2"
proof -
  have ne: "[''wide.fits''] \<noteq> []" by simp
  have op: "wide_disk (hd [''wide.fits'']) = Some (image_file [9007199254740995, 0] [])"
    by (simp add: wide_disk_def)
  have l2: "last2 (squeeze_shape (Some \<lparr>shape = [9007199254740995, 0], cells = ([]::int list)\<rparr>))
              = Some (9007199254740995, 0)"
    by (simp add: last2_def squeeze_shape_def)
  obtain f where f: "fst (make_empty_image [''wide.fits''] 1 ''concat.fits'' wide_disk) ''concat.fits'' = Some f"
    and c: "cards f = foldl (dim_cards 9007199254740995 0) primary_header
               (enumerate 1 [9007199254740995, 0, length [''wide.fits''], 1])"
    using make_empty_image_cards[where imlist="[''wide.fits'']" and fs=wide_disk and P=1
        and outname="''concat.fits''", OF ne op hdu_data_wide l2] by blast
  have "map_of (cards f) ''CRPIX1'' = Some (HInt 4503599627370498)"
    unfolding c skeleton_header by (simp add: int_half_big)
  then show ?thesis unfolding f by simp
qed

section \<open>What a fill writes\<close>

subsection \<open>Broadcasting keeps the size of the target\<close>

lemma prod_list_strip_ones: "prod_list (strip_ones n s) = prod_list s"
  by (induction s) auto

lemma length_strip_ones_same: "length s \<le> n \<Longrightarrow> strip_ones n s = s"
  by (cases s) auto

lemma length_concat_const:
  "(\<And>x. x \<in> set xss \<Longrightarrow> length x = c) \<Longrightarrow> length (concat xss) = length xss * c"
  by (induction xss) auto

lemma length_concat_replicate: "length (concat (replicate t x)) = t * length x"
  by (induction t) auto

lemma length_bcast:
  "list_all2 (\<lambda>t d. d = t \<or> d = 1) ts ds \<Longrightarrow> length xs = prod_list ds
     \<Longrightarrow> length (bcast ts ds xs) = prod_list ts"
proof (induction ts ds xs rule: bcast.induct)
  case (1 t ts d ds xs)
  have all: "list_all2 (\<lambda>t d. d = t \<or> d = 1) ts ds" using "1.prems"(1) by simp
  show ?case
  proof (cases "d = t")
    case True
    have each: "length (bcast ts ds (take (prod_list ds) (drop (i * prod_list ds) xs))) = prod_list ts"
      if "i < t" for i
    proof -
      have "(i + 1) * prod_list ds \<le> t * prod_list ds" using that by (intro mult_le_mono1) simp
      then have "i * prod_list ds + prod_list ds \<le> length xs"
        using "1.prems"(2) True by (simp add: algebra_simps)
      then have "length (take (prod_list ds) (drop (i * prod_list ds) xs)) = prod_list ds" by simp
      then show ?thesis using "1.IH"(1)[OF True _ all] that by simp
    qed
    have "length (concat (map (\<lambda>i. bcast ts ds (take (prod_list ds) (drop (i * prod_list ds) xs))) [0 ..< t]))
            = length (map (\<lambda>i. bcast ts ds (take (prod_list ds) (drop (i * prod_list ds) xs))) [0 ..< t]) * prod_list ts"
      by (rule length_concat_const) (auto simp: each)
    then show ?thesis using True by simp
  next
    case False
    then have d1: "d = 1" using "1.prems"(1) by simp
    have "length (bcast ts ds xs) = prod_list ts"
      using "1.IH"(2)[OF False all] "1.prems"(2) d1 by simp
    then show ?thesis using False by (simp add: length_concat_replicate)
  qed
qed simp_all

lemma length_broadcast:
  assumes "broadcast ts v = Inr blk" and "wf_array v"
  shows "length blk = prod_list ts"
proof -
  define vs where "vs = strip_ones (length ts) (shape v)"
  define ds where "ds = replicate (length ts - length vs) 1 @ vs"
  have a: "list_all2 (\<lambda>t d. d = t \<or> d = 1) ts ds" and b: "blk = bcast ts ds (cells v)"
    using assms(1) unfolding broadcast_def Let_def vs_def[symmetric] ds_def[symmetric]
    by (auto split: if_splits)
  have "prod_list ds = prod_list (shape v)"
    by (simp add: ds_def vs_def prod_list_strip_ones)
  then have "length (cells v) = prod_list ds" using assms(2) by (simp add: wf_array_def)
  then show ?thesis unfolding b using a by (rule length_bcast[rotated])
qed

subsection \<open>Blocks written into a list\<close>

lemma plane_index_bound: "p < a \<Longrightarrow> i < b \<Longrightarrow> p * b + i + 1 \<le> a * (b::nat)"
proof -
  assume p: "p < a" and i: "i < b"
  have "p * b + i + 1 \<le> p * b + b" using i by simp
  also have "\<dots> = (p + 1) * b" by simp
  also have "\<dots> \<le> a * b" using p by (intro mult_le_mono1) simp
  finally show ?thesis .
qed

lemma plane_in_array:
  assumes "2 \<le> length s" and "p < s ! 0" and "i < s ! 1"
  shows "plane_offset s p i + prod_list (drop 2 s) \<le> prod_list s"
proof -
  obtain a b rest where s: "s = a # b # rest"
    using assms(1) by (cases s; cases "tl s") auto
  have "(p * b + i + 1) * prod_list rest \<le> (a * b) * prod_list rest"
    using plane_index_bound[of p a i b] assms(2,3) by (intro mult_le_mono1) (simp add: s)
  then show ?thesis by (simp add: s plane_offset_def algebra_simps)
qed

lemma length_write_block: "fits_in (length cs) w \<Longrightarrow> length (write_block cs w) = length cs"
  by (auto simp: write_block_def fits_in_def)

lemma nth_write_block:
  assumes "fits_in (length cs) w" and "k < length cs"
  shows "write_block cs w ! k =
     (if fst w \<le> k \<and> k < fst w + length (snd w) then snd w ! (k - fst w) else cs ! k)"
proof -
  have le: "fst w + length (snd w) \<le> length cs" using assms(1) by (simp add: fits_in_def)
  have lt: "length (take (fst w) cs) = fst w" using le by simp
  consider "k < fst w" | "fst w \<le> k" "k < fst w + length (snd w)" | "fst w + length (snd w) \<le> k"
    by linarith
  then show ?thesis
  proof cases
    case 1
    then show ?thesis using le by (simp add: write_block_def nth_append)
  next
    case 2
    have a: "\<not> k < fst w" and b: "k - fst w < length (snd w)" using 2 by linarith+
    have "write_block cs w ! k = (snd w @ drop (fst w + length (snd w)) cs) ! (k - fst w)"
      unfolding write_block_def using a lt by (simp add: nth_append)
    also have "\<dots> = snd w ! (k - fst w)" using b by (simp add: nth_append)
    finally show ?thesis using 2 by simp
  next
    case 3
    have a: "\<not> k < fst w" and b: "\<not> k - fst w < length (snd w)" using 3 by linarith+
    have "write_block cs w ! k = (snd w @ drop (fst w + length (snd w)) cs) ! (k - fst w)"
      unfolding write_block_def using a lt by (simp add: nth_append)
    also have "\<dots> = drop (fst w + length (snd w)) cs ! (k - fst w - length (snd w))"
      using b by (simp add: nth_append)
    also have "\<dots> = cs ! (fst w + length (snd w) + (k - fst w - length (snd w)))"
      using le by (intro nth_drop) 
    also have "fst w + length (snd w) + (k - fst w - length (snd w)) = k" using 3 by linarith
    finally show ?thesis using 3 by simp
  qed
qed

lemma apply_writes_Cons: "apply_writes (w # ws) cs = apply_writes ws (write_block cs w)"
  by (simp add: apply_writes_def)

lemma apply_writes_Nil: "apply_writes [] cs = cs"
  by (simp add: apply_writes_def)

lemma apply_writes_append: "apply_writes (ws @ vs) cs = apply_writes vs (apply_writes ws cs)"
  by (simp add: apply_writes_def)

lemma length_apply_writes:
  "list_all (fits_in (length cs)) ws \<Longrightarrow> length (apply_writes ws cs) = length cs"
  by (induction ws arbitrary: cs) (simp_all add: apply_writes_Nil apply_writes_Cons length_write_block)

lemma nth_apply_writes:
  "list_all (fits_in (length cs)) ws \<Longrightarrow> k < length cs
     \<Longrightarrow> apply_writes ws cs ! k = (case written ws k of Some v \<Rightarrow> v | None \<Rightarrow> cs ! k)"
proof (induction ws arbitrary: cs)
  case Nil
  then show ?case by (simp add: apply_writes_Nil)
next
  case (Cons w ws)
  have fw: "fits_in (length cs) w" and fws: "list_all (fits_in (length cs)) ws"
    using Cons.prems(1) by simp_all
  have len: "length (write_block cs w) = length cs" using fw by (rule length_write_block)
  have "apply_writes ws (write_block cs w) ! k =
          (case written ws k of Some v \<Rightarrow> v | None \<Rightarrow> write_block cs w ! k)"
    using Cons.IH[of "write_block cs w"] fws Cons.prems(2) len by simp
  then show ?case
    using nth_write_block[OF fw Cons.prems(2)]
    by (simp add: apply_writes_Cons split: option.split)
qed

subsection \<open>The loop over the planes as a list of writes\<close>

lemma hdu_data_Some:
  assumes "hdu_data f = Inr (Some a)"
  shows "shape a = hdu_shape (cards f)" and "cells a = take (prod_list (hdu_shape (cards f))) (body f)"
    and "prod_list (hdu_shape (cards f)) \<le> length (body f)" and "wf_array a"
  using assms by (auto simp: hdu_data_def Let_def wf_array_def split: if_splits)

lemma wf_getitem:
  assumes "wf_array a" and "getitem a i j = Inr v"
  shows "wf_array v"
proof -
  have c: "4 \<le> length (shape a)" "i < shape a ! 0" "j < shape a ! 1"
    and v: "v = \<lparr>shape = drop 2 (shape a),
                cells = take (prod_list (drop 2 (shape a))) (drop (plane_offset (shape a) i j) (cells a))\<rparr>"
    using assms(2) by (auto simp: getitem_def split: if_splits)
  have "plane_offset (shape a) i j + prod_list (drop 2 (shape a)) \<le> length (cells a)"
    using plane_in_array[of "shape a" i j] c assms(1) by (simp add: wf_array_def)
  then show ?thesis by (simp add: v wf_array_def)
qed

lemma wf_plane_of: "plane_of hdu ss = Inr v \<Longrightarrow> wf_array v"
  by (auto simp: plane_of_def split: sum.splits option.splits
      dest: hdu_data_Some(4) intro: wf_getitem)

lemma plane_write_Inr:
  assumes "plane_write hdu ii s ss = Inr w"
  shows "fst w = plane_offset s ss ii" and "length (snd w) = prod_list (drop 2 s)"
    and "4 \<le> length s" and "ss < s ! 0" and "ii < s ! 1" and "fits_in (prod_list s) w"
proof -
  obtain v blk where v: "plane_of hdu ss = Inr v" and b: "broadcast (drop 2 s) v = Inr blk"
    and w: "w = (plane_offset s ss ii, blk)"
    and c: "4 \<le> length s" "ss < s ! 0" "ii < s ! 1"
    using assms by (auto simp: plane_write_def split: sum.splits if_splits)
  have l: "length blk = prod_list (drop 2 s)"
    using length_broadcast[OF b wf_plane_of[OF v]] .
  show "fst w = plane_offset s ss ii" by (simp add: w)
  show "length (snd w) = prod_list (drop 2 s)" by (simp add: w l)
  show "4 \<le> length s" "ss < s ! 0" "ii < s ! 1" using c by simp_all
  show "fits_in (prod_list s) w"
    using plane_in_array[of s ss ii] c by (simp add: fits_in_def w l)
qed

lemma assign_plane_write:
  "assign_plane hdu ii ss (Some a) =
     (case plane_write hdu ii (shape a) ss of
        Inl e \<Rightarrow> Inl e
      | Inr w \<Rightarrow> Inr (Some (a\<lparr>cells := write_block (cells a) w\<rparr>)))"
proof (cases "plane_write hdu ii (shape a) ss")
  case (Inl e)
  then show ?thesis
    by (auto simp: assign_plane_def plane_write_def setitem_def split: sum.splits if_splits)
next
  case (Inr w)
  obtain v blk where v: "plane_of hdu ss = Inr v" and b: "broadcast (drop 2 (shape a)) v = Inr blk"
    and w: "w = (plane_offset (shape a) ss ii, blk)"
    and c: "4 \<le> length (shape a)" "ss < shape a ! 0" "ii < shape a ! 1"
    using Inr by (auto simp: plane_write_def split: sum.splits if_splits)
  have l: "length blk = prod_list (drop 2 (shape a))"
    using plane_write_Inr(2)[OF Inr] by (simp add: w)
  show ?thesis
    using c by (simp add: Inr assign_plane_def v setitem_def b w write_block_def l)
qed

lemma assign_plane_None_Inl: "\<exists>e. assign_plane hdu ii ss None = Inl e"
  by (auto simp: assign_plane_def split: sum.splits)

lemma copy_planes_None: "fst (copy_planes hdu ii sss None) = None"
proof (cases sss)
  case Nil
  then show ?thesis by simp
next
  case (Cons ss rest)
  obtain e where "assign_plane hdu ii ss None = Inl e" using assign_plane_None_Inl by blast
  then show ?thesis by (simp add: Cons)
qed

lemma plan_fits: "list_all (fits_in (prod_list s)) (fst (plan hdu ii s sss))"
  by (induction sss) (auto split: sum.splits dest: plane_write_Inr(6))

lemma copy_planes_plan:
  "wf_array a \<Longrightarrow> copy_planes hdu ii sss (Some a) =
     (Some (a\<lparr>cells := apply_writes (fst (plan hdu ii (shape a) sss)) (cells a)\<rparr>),
      snd (plan hdu ii (shape a) sss))"
proof (induction sss arbitrary: a)
  case Nil
  then show ?case by (simp add: apply_writes_Nil)
next
  case (Cons ss rest)
  show ?case
  proof (cases "plane_write hdu ii (shape a) ss")
    case (Inl e)
    then show ?thesis by (simp add: assign_plane_write apply_writes_Nil)
  next
    case (Inr w)
    have "fits_in (length (cells a)) w"
      using plane_write_Inr(6)[OF Inr] Cons.prems by (simp add: wf_array_def)
    then have wf': "wf_array (a\<lparr>cells := write_block (cells a) w\<rparr>)"
      using Cons.prems by (simp add: wf_array_def length_write_block)
    show ?thesis
      using Cons.IH[OF wf'] by (simp add: assign_plane_write Inr apply_writes_Cons)
  qed
qed

subsection \<open>One call of \<^verbatim>\<open>insert_channel\<close> as a list of writes\<close>

lemma fits_in_mono: "fits_in n w \<Longrightarrow> n \<le> m \<Longrightarrow> fits_in m w"
  by (simp add: fits_in_def)

lemma list_all_fits_in_mono: "list_all (fits_in n) ws \<Longrightarrow> n \<le> m \<Longrightarrow> list_all (fits_in m) ws"
  by (induction ws) (auto intro: fits_in_mono)

lemma write_block_take:
  assumes "fits_in n w" and "n \<le> length cs"
  shows "write_block (take n cs) w @ drop n cs = write_block cs w"
proof -
  have le: "fst w + length (snd w) \<le> n" using assms(1) by (simp add: fits_in_def)
  have a: "take (fst w) (take n cs) = take (fst w) cs" using le by (simp add: min_def)
  have "drop (fst w + length (snd w)) (take n cs @ drop n cs)
          = drop (fst w + length (snd w)) (take n cs) @ drop n cs"
    using le assms(2) by (simp del: append_take_drop_id)
  then have b: "drop (fst w + length (snd w)) (take n cs) @ drop n cs = drop (fst w + length (snd w)) cs"
    by simp
  show ?thesis unfolding write_block_def a using b by simp
qed

lemma apply_writes_take:
  "list_all (fits_in n) ws \<Longrightarrow> n \<le> length cs
     \<Longrightarrow> apply_writes ws (take n cs) @ drop n cs = apply_writes ws cs"
proof (induction ws arbitrary: cs)
  case Nil
  then show ?case by (simp add: apply_writes_Nil)
next
  case (Cons w ws)
  have fw: "fits_in n w" and fws: "list_all (fits_in n) ws" using Cons.prems(1) by simp_all
  define cs' where "cs' = write_block cs w"
  have eq: "write_block (take n cs) w @ drop n cs = cs'"
    unfolding cs'_def using fw Cons.prems(2) by (rule write_block_take)
  have ln: "length (write_block (take n cs) w) = n"
    using length_write_block[of "take n cs" w] fw Cons.prems(2) by simp
  have t: "take n cs' = write_block (take n cs) w" and d: "drop n cs' = drop n cs"
    using ln unfolding eq[symmetric] by simp_all
  have l': "n \<le> length cs'" using ln unfolding eq[symmetric] by simp
  have "apply_writes ws (take n cs') @ drop n cs' = apply_writes ws cs'"
    using fws l' by (rule Cons.IH)
  then show ?case unfolding t d by (simp add: apply_writes_Cons cs'_def)
qed

lemma insert_channel_nf:
  "insert_channel channo outname imlist max_chan nstokes fs =
     ((case fs outname of
         None \<Rightarrow> fs
       | Some f \<Rightarrow> fs(outname \<mapsto> f\<lparr>body := apply_writes (fst (chan_plan channo outname imlist nstokes fs)) (body f)\<rparr>)),
      snd (chan_plan channo outname imlist nstokes fs))"
proof (cases "fs outname")
  case None
  then show ?thesis by (simp add: insert_channel_def chan_plan_def)
next
  case (Some f)
  have same: "fs(outname \<mapsto> f\<lparr>body := body f\<rparr>) = fs" using Some by auto
  show ?thesis
  proof (cases "hdu_data f")
    case (Inl e)
    then show ?thesis using Some same by (simp add: insert_channel_def chan_plan_def apply_writes_Nil)
  next
    case (Inr outdata)
    show ?thesis
    proof (cases "channo < length imlist")
      case False
      then show ?thesis using Some Inr same
        by (simp add: insert_channel_def chan_plan_def apply_writes_Nil)
    next
      case True
      show ?thesis
      proof (cases "fs (imlist ! channo)")
        case None
        then show ?thesis using Some Inr True same
          by (simp add: insert_channel_def chan_plan_def apply_writes_Nil)
      next
        case hdu: (Some hdu)
        show ?thesis
        proof (cases outdata)
          case None
          have "fst (copy_planes hdu channo [0 ..< nstokes] None) = None" by (rule copy_planes_None)
          then obtain e where "copy_planes hdu channo [0 ..< nstokes] None = (None, e)"
            by (cases "copy_planes hdu channo [0 ..< nstokes] None") auto
          then show ?thesis using Some Inr True hdu None same
            by (simp add: insert_channel_def chan_plan_def apply_writes_Nil store_data_def)
        next
          case a: (Some a)
          have hd: "hdu_data f = Inr (Some a)" using Inr a by simp
          note h = hdu_data_Some[OF hd]
          define ws where "ws = fst (plan hdu channo (shape a) [0 ..< nstokes])"
          have fit: "list_all (fits_in (prod_list (shape a))) ws"
            unfolding ws_def by (rule plan_fits)
          have n: "prod_list (shape a) \<le> length (body f)" using h(1,3) by simp
          have "length (apply_writes ws (cells a)) = length (cells a)"
            using fit h(4) by (intro length_apply_writes) (simp add: wf_array_def)
          then have len: "length (apply_writes ws (cells a)) = prod_list (shape a)"
            using h(4) by (simp add: wf_array_def)
          have "apply_writes ws (take (prod_list (shape a)) (body f)) @ drop (prod_list (shape a)) (body f)
                  = apply_writes ws (body f)"
            using fit n by (rule apply_writes_take)
          then have st: "store_data f (Some (a\<lparr>cells := apply_writes ws (cells a)\<rparr>))
                  = f\<lparr>body := apply_writes ws (body f)\<rparr>"
            using len h(1,2) by (simp add: store_data_def)
          show ?thesis
            using Some hd True hdu st
            by (simp add: insert_channel_def chan_plan_def copy_planes_plan[OF h(4)] ws_def a)
        qed
      qed
    qed
  qed
qed

lemma written_Some:
  "written ws k = Some v \<Longrightarrow> \<exists>w \<in> set ws. fst w \<le> k \<and> k < fst w + length (snd w)"
  by (induction ws) (auto split: option.splits if_splits)

lemma plan_writes:
  "w \<in> set (fst (plan hdu ii s sss))
     \<Longrightarrow> \<exists>ss \<in> set sss. fst w = plane_offset s ss ii \<and> length (snd w) = prod_list (drop 2 s)
            \<and> ii < s ! 1"
proof (induction sss)
  case Nil
  then show ?case by simp
next
  case (Cons ss rest)
  show ?case
  proof (cases "plane_write hdu ii s ss")
    case (Inl e)
    then show ?thesis using Cons.prems by simp
  next
    case (Inr w')
    show ?thesis
    proof (cases "w = w'")
      case True
      then show ?thesis using plane_write_Inr(1,2,5)[OF Inr] by simp
    next
      case False
      then have "w \<in> set (fst (plan hdu ii s rest))" using Cons.prems Inr by simp
      then show ?thesis using Cons.IH by auto
    qed
  qed
qed

lemma chan_plan_writes:
  assumes "fs outname = Some f" and "w \<in> set (fst (chan_plan i outname imlist planes fs))"
  shows "\<exists>p < planes. fst w = plane_offset (hdu_shape (cards f)) p i
           \<and> length (snd w) = prod_list (drop 2 (hdu_shape (cards f)))
           \<and> i < hdu_shape (cards f) ! 1"
proof -
  obtain a hdu where hd: "hdu_data f = Inr (Some a)"
    and w: "w \<in> set (fst (plan hdu i (shape a) [0 ..< planes]))"
    using assms by (auto simp: chan_plan_def split: sum.splits option.splits if_splits)
  show ?thesis using plan_writes[OF w] hdu_data_Some(1)[OF hd] by auto
qed

lemma chan_plan_fits:
  assumes "fs outname = Some f"
  shows "list_all (fits_in (length (body f))) (fst (chan_plan i outname imlist planes fs))"
proof (cases "fst (chan_plan i outname imlist planes fs) = []")
  case True
  then show ?thesis by simp
next
  case False
  then obtain a hdu where hd: "hdu_data f = Inr (Some a)"
    and w: "fst (chan_plan i outname imlist planes fs) = fst (plan hdu i (shape a) [0 ..< planes])"
    using assms by (auto simp: chan_plan_def split: sum.splits option.splits if_splits)
  have "prod_list (shape a) \<le> length (body f)" using hdu_data_Some(1,3)[OF hd] by simp
  then show ?thesis unfolding w using plan_fits by (rule list_all_fits_in_mono[rotated])
qed

lemma block_index_neq:
  assumes "i \<noteq> j" and "i < z" and "j < z"
  shows "p * z + i \<noteq> q * z + (j::nat)"
proof
  assume "p * z + i = q * z + j"
  then have "(p * z + i) mod z = (q * z + j) mod z" by simp
  then show False using assms by simp
qed

lemma blocks_disjoint:
  assumes "b \<noteq> (c::nat)"
  shows "{b * m ..< b * m + m} \<inter> {c * m ..< c * m + m} = {}"
proof -
  have *: "{b * m ..< b * m + m} \<inter> {c * m ..< c * m + m} = {}" if "b < c" for b c :: nat
  proof -
    have "(b + 1) * m \<le> c * m" using that by (intro mult_le_mono1) simp
    then have "b * m + m \<le> c * m" by simp
    then show ?thesis by auto
  qed
  show ?thesis
  proof (cases "b < c")
    case True
    then show ?thesis by (rule *)
  next
    case False
    then have "c < b" using assms by simp
    then show ?thesis using *[of c b] by blast
  qed
qed

lemma plane_cells_disjoint:
  assumes "i \<noteq> j" and "i < s ! 1" and "j < s ! 1"
  shows "plane_cells s p i \<inter> plane_cells s q j = {}"
  unfolding plane_cells_def plane_offset_def
  using blocks_disjoint[OF block_index_neq[OF assms, of p q]] .

lemma channel_cells_disjoint:
  assumes "i \<noteq> j" and "i < s ! 1" and "j < s ! 1"
  shows "channel_cells s planes i \<inter> channel_cells s planes' j = {}"
  using plane_cells_disjoint[OF assms] unfolding channel_cells_def by blast

text \<open>A position that a call of \<^verbatim>\<open>insert_channel\<close> writes lies in the cells of its channel.\<close>

lemma chan_plan_written:
  assumes "fs outname = Some f" and "written (fst (chan_plan i outname imlist planes fs)) k = Some v"
  shows "k \<in> channel_cells (hdu_shape (cards f)) planes i" and "i < hdu_shape (cards f) ! 1"
proof -
  obtain w where w: "w \<in> set (fst (chan_plan i outname imlist planes fs))"
    and k: "fst w \<le> k" "k < fst w + length (snd w)"
    using written_Some[OF assms(2)] by blast
  obtain p where p: "p < planes" "fst w = plane_offset (hdu_shape (cards f)) p i"
    "length (snd w) = prod_list (drop 2 (hdu_shape (cards f)))" "i < hdu_shape (cards f) ! 1"
    using chan_plan_writes[OF assms(1) w] by blast
  have "k \<in> plane_cells (hdu_shape (cards f)) p i" using k p by (simp add: plane_cells_def)
  then show "k \<in> channel_cells (hdu_shape (cards f)) planes i"
    using p(1) by (auto simp: channel_cells_def)
  show "i < hdu_shape (cards f) ! 1" by (rule p(4))
qed


subsection \<open>The skeleton of the small run\<close>



lemma hdu_shape_skeleton: "hdu_shape (cards skeleton_file) = [2, 3, 4, 4]"
  by (simp add: hdu_shape_def skeleton_file_def header_nat_def str_nat_small str_nat_Suc upt_rec)

lemma hdu_data_skeleton:
  "hdu_data skeleton_file = Inr (Some \<lparr>shape = [2, 3, 4, 4], cells = replicate 96 0\<rparr>)"
  unfolding hdu_data_def Let_def hdu_shape_skeleton by (simp add: skeleton_file_def)

lemma skeleton_disk_out: "skeleton_disk ''concat.fits'' = Some skeleton_file"
  by (simp add: skeleton_disk_def)

subsection \<open>C3: a call writes the cells of its channel only\<close>

text \<open>
  Claim C3. A call of \<^verbatim>\<open>insert_channel\<close> with depth index \<open>i\<close>, whether it returns or
  raises, changes no file but the output; in the output it leaves the header cards and the
  length alone, and changes only cells \<^verbatim>\<open>outdata[p, i, :, :]\<close> with \<open>p\<close> below the plane count.
  Every cell \<^verbatim>\<open>outdata[p, j, :, :]\<close> of another channel \<open>j\<close> stays as it was, and the cells of
  two distinct channels are disjoint sets of positions.
\<close>

theorem insert_channel_frame:
  assumes "fs outname = Some f"
  shows "\<exists>f'. fst (insert_channel i outname imlist max_chan planes fs) = fs(outname \<mapsto> f')
           \<and> cards f' = cards f \<and> spare f' = spare f \<and> length (body f') = length (body f)
           \<and> (\<forall>k < length (body f). k \<notin> channel_cells (hdu_shape (cards f)) planes i
                 \<longrightarrow> body f' ! k = body f ! k)
           \<and> (\<forall>j p k. j \<noteq> i \<and> j < hdu_shape (cards f) ! 1 \<and> k < length (body f)
                       \<and> k \<in> plane_cells (hdu_shape (cards f)) p j
                 \<longrightarrow> body f' ! k = body f ! k)
           \<and> (\<forall>j. j \<noteq> i \<and> i < hdu_shape (cards f) ! 1 \<and> j < hdu_shape (cards f) ! 1
                 \<longrightarrow> channel_cells (hdu_shape (cards f)) planes i
                       \<inter> channel_cells (hdu_shape (cards f)) planes j = {})"
proof -
  define ws where "ws = fst (chan_plan i outname imlist planes fs)"
  define f' where "f' = f\<lparr>body := apply_writes ws (body f)\<rparr>"
  have fit: "list_all (fits_in (length (body f))) ws"
    unfolding ws_def using assms by (rule chan_plan_fits)
  have 1: "fst (insert_channel i outname imlist max_chan planes fs) = fs(outname \<mapsto> f')"
    by (simp add: insert_channel_nf assms f'_def ws_def)
  have 2: "cards f' = cards f" "spare f' = spare f" by (simp_all add: f'_def)
  have 3: "length (body f') = length (body f)"
    using fit by (simp add: f'_def length_apply_writes)
  have nth: "body f' ! k = (case written ws k of Some v \<Rightarrow> v | None \<Rightarrow> body f ! k)"
    if "k < length (body f)" for k
    using nth_apply_writes[OF fit that] by (simp add: f'_def)
  have 4: "body f' ! k = body f ! k"
    if "k < length (body f)" "k \<notin> channel_cells (hdu_shape (cards f)) planes i" for k
  proof (cases "written ws k")
    case None
    then show ?thesis using nth[OF that(1)] by simp
  next
    case (Some v)
    then have "k \<in> channel_cells (hdu_shape (cards f)) planes i"
      using chan_plan_written(1)[where fs=fs and outname=outname and f=f and i=i and imlist=imlist
          and planes=planes and k=k and v=v, OF assms] by (simp add: ws_def)
    then show ?thesis using that(2) by simp
  qed
  have 5: "body f' ! k = body f ! k"
    if "j \<noteq> i" "j < hdu_shape (cards f) ! 1" "k < length (body f)"
      "k \<in> plane_cells (hdu_shape (cards f)) p j" for j p k
  proof (cases "written ws k")
    case None
    then show ?thesis using nth[OF that(3)] by simp
  next
    case (Some v)
    obtain w where w: "w \<in> set ws" and k: "fst w \<le> k" "k < fst w + length (snd w)"
      using written_Some[OF Some] by blast
    obtain q where q: "fst w = plane_offset (hdu_shape (cards f)) q i"
      "length (snd w) = prod_list (drop 2 (hdu_shape (cards f)))" "i < hdu_shape (cards f) ! 1"
      using chan_plan_writes[where fs=fs and outname=outname, OF assms w[unfolded ws_def]] by blast
    have "k \<in> plane_cells (hdu_shape (cards f)) q i" using k q by (simp add: plane_cells_def)
    then show ?thesis
      using plane_cells_disjoint[OF that(1) that(2) q(3), of p q] that(4) by blast
  qed
  have 6: "channel_cells (hdu_shape (cards f)) planes i \<inter> channel_cells (hdu_shape (cards f)) planes j = {}"
    if "j \<noteq> i" "i < hdu_shape (cards f) ! 1" "j < hdu_shape (cards f) ! 1" for j
    using channel_cells_disjoint[of i j] that by blast
  show ?thesis using 1 2 3 4 5 6 by blast
qed

text \<open>Channel 1 of the small run: cell 0 (channel 0) and cell 33 (channel 2) keep their zero.\<close>

theorem insert_channel_frame_witness:
  "\<exists>f'. fst (insert_channel 1 ''concat.fits'' chan_list 3 2 skeleton_disk)
           = skeleton_disk(''concat.fits'' \<mapsto> f')
       \<and> cards f' = cards skeleton_file \<and> length (body f') = 720
       \<and> body f' ! 0 = 0 \<and> body f' ! 33 = 0"
proof -
  have a: "(0::nat) \<notin> channel_cells [2, 3, 4, 4] 2 1"
    by (auto simp: channel_cells_def plane_cells_def plane_offset_def)
  have b: "(33::nat) \<in> plane_cells [2, 3, 4, 4] 0 2"
    by (simp add: plane_cells_def plane_offset_def)
  have l: "length (body skeleton_file) = 720" "body skeleton_file ! 0 = 0" "body skeleton_file ! 33 = 0"
    by (simp_all add: skeleton_file_def)
  obtain f' where f': "fst (insert_channel 1 ''concat.fits'' chan_list 3 2 skeleton_disk)
           = skeleton_disk(''concat.fits'' \<mapsto> f')" "cards f' = cards skeleton_file"
    "length (body f') = length (body skeleton_file)"
    "\<forall>k < length (body skeleton_file). k \<notin> channel_cells (hdu_shape (cards skeleton_file)) 2 1
                 \<longrightarrow> body f' ! k = body skeleton_file ! k"
    "\<forall>j p k. j \<noteq> 1 \<and> j < hdu_shape (cards skeleton_file) ! 1 \<and> k < length (body skeleton_file)
                       \<and> k \<in> plane_cells (hdu_shape (cards skeleton_file)) p j
                 \<longrightarrow> body f' ! k = body skeleton_file ! k"
    using insert_channel_frame[where fs=skeleton_disk and outname="''concat.fits''" and f=skeleton_file
        and i=1 and imlist=chan_list and max_chan=3 and planes=2, OF skeleton_disk_out]
    by blast
  have "body f' ! 0 = 0" using f'(4) a l by (simp add: hdu_shape_skeleton)
  moreover have "body f' ! 33 = 0"
    using f'(5)[rule_format, of 2 33 0] b l by (simp add: hdu_shape_skeleton)
  ultimately show ?thesis using f'(1,2,3) l(1) by auto
qed

lemma apply_writes_idem:
  assumes "list_all (fits_in (length cs)) ws"
  shows "apply_writes ws (apply_writes ws cs) = apply_writes ws cs"
proof (rule nth_equalityI)
  have l: "length (apply_writes ws cs) = length cs" using assms by (rule length_apply_writes)
  have fit': "list_all (fits_in (length (apply_writes ws cs))) ws" using assms l by simp
  show "length (apply_writes ws (apply_writes ws cs)) = length (apply_writes ws cs)"
    using fit' by (rule length_apply_writes)
  fix k assume "k < length (apply_writes ws (apply_writes ws cs))"
  then have k: "k < length cs" using length_apply_writes[OF fit'] l by simp
  have "apply_writes ws (apply_writes ws cs) ! k
          = (case written ws k of Some v \<Rightarrow> v | None \<Rightarrow> apply_writes ws cs ! k)"
    using nth_apply_writes[OF fit'] k l by simp
  also have "\<dots> = apply_writes ws cs ! k"
    using nth_apply_writes[OF assms k] by (simp split: option.split)
  finally show "apply_writes ws (apply_writes ws cs) ! k = apply_writes ws cs ! k" .
qed

lemma chan_plan_cong:
  assumes "fs outname = Some f" and "cards f' = cards f" and "length (body f') = length (body f)"
    and "outname \<notin> set imlist"
  shows "chan_plan i outname imlist ns (fs(outname \<mapsto> f')) = chan_plan i outname imlist ns fs"
proof (cases "i < length imlist")
  case False
  then show ?thesis using assms(1,2,3)
    by (auto simp: chan_plan_def hdu_data_def Let_def split: sum.splits)
next
  case True
  then have ne: "imlist ! i \<noteq> outname" using assms(4) nth_mem by metis
  show ?thesis using assms(1,2,3) ne True
    by (auto simp: chan_plan_def hdu_data_def Let_def split: option.splits)
qed


subsection \<open>C9: filling a channel twice\<close>

text \<open>
  Claim C9. Calling \<^verbatim>\<open>insert_channel\<close> a second time with the same index and the same
  images leaves the disk that the first call left, and ends the way the first call ended.
  The images are files other than the output.
\<close>

theorem insert_channel_idempotent:
  assumes "outname \<notin> set imlist"
  shows "insert_channel i outname imlist max_chan planes
           (fst (insert_channel i outname imlist max_chan planes fs))
         = insert_channel i outname imlist max_chan planes fs"
proof (cases "fs outname")
  case None
  then show ?thesis by (simp add: insert_channel_nf)
next
  case (Some f)
  define ws where "ws = fst (chan_plan i outname imlist planes fs)"
  define f' where "f' = f\<lparr>body := apply_writes ws (body f)\<rparr>"
  have fit: "list_all (fits_in (length (body f))) ws"
    unfolding ws_def using Some by (rule chan_plan_fits)
  have 1: "fst (insert_channel i outname imlist max_chan planes fs) = fs(outname \<mapsto> f')"
    by (simp add: insert_channel_nf Some f'_def ws_def)
  have cong: "chan_plan i outname imlist planes (fs(outname \<mapsto> f')) = chan_plan i outname imlist planes fs"
    using Some _ _ assms by (rule chan_plan_cong) (simp_all add: f'_def length_apply_writes[OF fit])
  have idem: "apply_writes ws (body f') = body f'"
    using apply_writes_idem[OF fit] by (simp add: f'_def)
  show ?thesis
    unfolding 1 by (simp add: insert_channel_nf cong Some ws_def[symmetric] f'_def[symmetric] idem)
qed

theorem insert_channel_idempotent_witness:
  "insert_channel 1 ''concat.fits'' chan_list 3 2
     (fst (insert_channel 1 ''concat.fits'' chan_list 3 2 skeleton_disk))
   = insert_channel 1 ''concat.fits'' chan_list 3 2 skeleton_disk"
proof -
  have "''concat.fits'' \<notin> set chan_list" by (simp add: chan_list_def)
  then show ?thesis by (rule insert_channel_idempotent)
qed

section \<open>The order of the channels\<close>

subsection \<open>Units that write disjoint cells\<close>






subsection \<open>The pool as a list of writes\<close>


lemma run_pool_step:
  assumes "fs outname = Some f" and "outname \<notin> set imlist"
    and "cards f' = cards f" and "length (body f') = length (body f)"
  shows "run_pool sched outname imlist max_chan ns (fs(outname \<mapsto> f'))
     = (fs(outname \<mapsto> f'\<lparr>body := apply_writes
            (concat (map (\<lambda>c. fst (chan_plan c outname imlist ns fs)) sched)) (body f')\<rparr>),
        map (\<lambda>c. (c, snd (chan_plan c outname imlist ns fs))) sched)"
  using assms(3,4)
proof (induction sched arbitrary: f')
  case Nil
  then show ?case by (simp add: apply_writes_Nil)
next
  case (Cons c sched)
  define ws where "ws = fst (chan_plan c outname imlist ns fs)"
  define f1 where "f1 = f'\<lparr>body := apply_writes ws (body f')\<rparr>"
  have cong: "chan_plan c outname imlist ns (fs(outname \<mapsto> f')) = chan_plan c outname imlist ns fs"
    using assms(1) Cons.prems assms(2) by (rule chan_plan_cong)
  have fit: "list_all (fits_in (length (body f'))) ws"
    using chan_plan_fits[where fs=fs and outname=outname, OF assms(1), of c imlist ns] Cons.prems(2)
    by (simp add: ws_def)
  have ins: "insert_channel c outname imlist max_chan ns (fs(outname \<mapsto> f'))
               = (fs(outname \<mapsto> f1), snd (chan_plan c outname imlist ns fs))"
    by (simp add: insert_channel_nf cong f1_def ws_def)
  have c1: "cards f1 = cards f" and l1: "length (body f1) = length (body f)"
    using Cons.prems fit by (simp_all add: f1_def length_apply_writes)
  have b1: "f1\<lparr>body := apply_writes (concat (map (\<lambda>c. fst (chan_plan c outname imlist ns fs)) sched)) (body f1)\<rparr>
        = f'\<lparr>body := apply_writes (concat (map (\<lambda>c. fst (chan_plan c outname imlist ns fs)) (c # sched))) (body f')\<rparr>"
    by (simp add: f1_def apply_writes_append ws_def)
  have IH': "run_pool sched outname imlist max_chan ns (fs(outname \<mapsto> f1))
     = (fs(outname \<mapsto> f1\<lparr>body := apply_writes
            (concat (map (\<lambda>c. fst (chan_plan c outname imlist ns fs)) sched)) (body f1)\<rparr>),
        map (\<lambda>c. (c, snd (chan_plan c outname imlist ns fs))) sched)"
    using c1 l1 by (rule Cons.IH)
  show ?case
    by (simp only: run_pool.simps ins Let_def prod.case IH' b1 list.map)
qed

lemma run_pool_nf:
  assumes "fs outname = Some f" and "outname \<notin> set imlist"
  shows "run_pool sched outname imlist max_chan ns fs
     = (fs(outname \<mapsto> f\<lparr>body := apply_writes
            (concat (map (\<lambda>c. fst (chan_plan c outname imlist ns fs)) sched)) (body f)\<rparr>),
        map (\<lambda>c. (c, snd (chan_plan c outname imlist ns fs))) sched)"
proof -
  have "fs(outname \<mapsto> f) = fs" using assms(1) by auto
  then show ?thesis
    using run_pool_step[where fs=fs and outname=outname and f=f and f'=f and imlist=imlist
        and sched=sched and max_chan=max_chan and ns=ns, OF assms] by simp
qed





lemma pool_nf:
  assumes "fs outname = Some f" and "outname \<notin> set imlist"
  shows "fill_cube_with_images_multiprocess sched imlist ns outname fs =
     (case get_all (map (\<lambda>c. (c, snd (chan_plan c outname imlist ns fs))) sched) [0 ..< length imlist] of
        Some e \<Rightarrow>
          (fs(outname \<mapsto> f\<lparr>body := apply_writes
              (concat (map (\<lambda>c. fst (chan_plan c outname imlist ns fs)) sched)) (body f)\<rparr>), Some e)
      | None \<Rightarrow>
          update_fits_header outname (fitsheader (int (length imlist)))
            (fs(outname \<mapsto> f\<lparr>body := apply_writes
              (concat (map (\<lambda>c. fst (chan_plan c outname imlist ns fs)) sched)) (body f)\<rparr>)))"
  unfolding fill_cube_with_images_multiprocess_def Let_def
    run_pool_nf[where fs=fs and outname=outname and f=f and imlist=imlist, OF assms]
  by (simp only: prod.case)

subsection \<open>The loop of \<^verbatim>\<open>fill_cube_with_images\<close> as a list of writes\<close>

lemma store_data_same:
  assumes "hdu_data f = Inr (Some a)"
  shows "store_data f (Some a) = f"
  using hdu_data_Some(2,3)[OF assms] by (simp add: store_data_def min_def)

lemma store_data_writes:
  assumes "hdu_data f = Inr (Some a)" and "list_all (fits_in (prod_list (shape a))) ws"
  shows "store_data f (Some (a\<lparr>cells := apply_writes ws (cells a)\<rparr>)) = f\<lparr>body := apply_writes ws (body f)\<rparr>"
proof -
  note h = hdu_data_Some[OF assms(1)]
  have n: "prod_list (shape a) \<le> length (body f)" using h(1,3) by simp
  have "length (apply_writes ws (cells a)) = length (cells a)"
    using assms(2) h(4) by (intro length_apply_writes) (simp add: wf_array_def)
  then have len: "length (apply_writes ws (cells a)) = prod_list (shape a)"
    using h(4) by (simp add: wf_array_def)
  have "apply_writes ws (take (prod_list (shape a)) (body f)) @ drop (prod_list (shape a)) (body f)
          = apply_writes ws (body f)"
    using assms(2) n by (rule apply_writes_take)
  then show ?thesis using len h(1,2) by (simp add: store_data_def)
qed

lemma chan_plan_Some:
  assumes "fs outname = Some f" and "hdu_data f = Inr (Some a)" and "c < length imlist"
  shows "chan_plan c outname imlist ns fs =
     (case fs (imlist ! c) of
        None \<Rightarrow> ([], Some FileNotFoundError)
      | Some hdu \<Rightarrow> plan hdu c (shape a) [0 ..< ns])"
  using assms by (simp add: chan_plan_def split: option.splits)

lemma seq_plan_fits:
  "(\<And>c. c \<in> set cs \<Longrightarrow> list_all (fits_in n) (fst (P c))) \<Longrightarrow> list_all (fits_in n) (fst (seq_plan P cs))"
  by (induction cs) (auto split: option.splits)

text \<open>The loop of \<^verbatim>\<open>fill_cube_with_images\<close> over an array that the disk holds.\<close>

lemma fill_channels_nf:
  assumes "fs outname = Some f" and "hdu_data f = Inr (Some a)" and "outname \<notin> set imlist"
    and "\<And>c. c \<in> set chans \<Longrightarrow> c < length imlist"
    and "list_all (fits_in (prod_list (shape a))) ws"
  shows "fill_channels outname imlist ns f chans (Some (a\<lparr>cells := apply_writes ws (cells a)\<rparr>))
           (fs(outname \<mapsto> f\<lparr>body := apply_writes ws (body f)\<rparr>))
       = ((Some (a\<lparr>cells := apply_writes
                  (ws @ fst (seq_plan (\<lambda>c. chan_plan c outname imlist ns fs) chans)) (cells a)\<rparr>),
           fs(outname \<mapsto> f\<lparr>body := apply_writes
                  (ws @ fst (seq_plan (\<lambda>c. chan_plan c outname imlist ns fs) chans)) (body f)\<rparr>)),
          snd (seq_plan (\<lambda>c. chan_plan c outname imlist ns fs) chans))"
  using assms(4,5)
proof (induction chans arbitrary: ws)
  case Nil
  then show ?case by simp
next
  case (Cons c chans)
  have c: "c < length imlist" using Cons.prems(1) by simp
  then have ne: "imlist ! c \<noteq> outname" using assms(3) nth_mem by metis
  note cp = chan_plan_Some[where fs=fs and outname=outname and f=f and a=a and c=c and imlist=imlist
      and ns=ns, OF assms(1,2) c]
  note h = hdu_data_Some[OF assms(2)]
  define acur where "acur = a\<lparr>cells := apply_writes ws (cells a)\<rparr>"
  have wfc: "wf_array acur"
    using h(4) Cons.prems(2) by (simp add: acur_def wf_array_def length_apply_writes)
  have shc: "shape acur = shape a" by (simp add: acur_def)
  have lk: "(fs(outname \<mapsto> f\<lparr>body := apply_writes ws (body f)\<rparr>)) (imlist ! c) = fs (imlist ! c)"
    using ne by simp
  show ?case
  proof (cases "fs (imlist ! c)")
    case None
    have sp: "seq_plan (\<lambda>c. chan_plan c outname imlist ns fs) (c # chans) = ([], Some FileNotFoundError)"
      by (simp add: cp None)
    show ?thesis
      unfolding sp
      by (simp only: fill_channels.simps lk None option.case fst_conv snd_conv append_Nil2)
  next
    case (Some hdu)
    define pw where "pw = fst (plan hdu c (shape a) [0 ..< ns])"
    have fitp: "list_all (fits_in (prod_list (shape a))) pw" unfolding pw_def by (rule plan_fits)
    have fit2: "list_all (fits_in (prod_list (shape a))) (ws @ pw)" using Cons.prems(2) fitp by simp
    have cpl: "copy_planes hdu c [0 ..< ns] (Some (a\<lparr>cells := apply_writes ws (cells a)\<rparr>))
        = (Some (a\<lparr>cells := apply_writes (ws @ pw) (cells a)\<rparr>), snd (plan hdu c (shape a) [0 ..< ns]))"
      using copy_planes_plan[OF wfc, of hdu c "[0 ..< ns]"]
      by (simp add: shc pw_def acur_def apply_writes_append)
    have st: "store_data f (Some (a\<lparr>cells := apply_writes (ws @ pw) (cells a)\<rparr>))
                = f\<lparr>body := apply_writes (ws @ pw) (body f)\<rparr>"
      using assms(2) fit2 by (rule store_data_writes)
    have cpc: "chan_plan c outname imlist ns fs = plan hdu c (shape a) [0 ..< ns]"
      by (simp add: cp Some)
    show ?thesis
    proof (cases "snd (plan hdu c (shape a) [0 ..< ns])")
      case e: (Some e)
      have sp: "seq_plan (\<lambda>c. chan_plan c outname imlist ns fs) (c # chans) = (pw, Some e)"
        by (simp add: cpc e pw_def)
      show ?thesis
        unfolding sp
        by (simp only: fill_channels.simps lk Some option.case cpl Let_def prod.case st
            fun_upd_upd e fst_conv snd_conv)
    next
      case None
      have sp: "seq_plan (\<lambda>c. chan_plan c outname imlist ns fs) (c # chans)
          = (pw @ fst (seq_plan (\<lambda>c. chan_plan c outname imlist ns fs) chans),
             snd (seq_plan (\<lambda>c. chan_plan c outname imlist ns fs) chans))"
        by (simp add: cpc None pw_def)
      have IH: "fill_channels outname imlist ns f chans (Some (a\<lparr>cells := apply_writes (ws @ pw) (cells a)\<rparr>))
           (fs(outname \<mapsto> f\<lparr>body := apply_writes (ws @ pw) (body f)\<rparr>))
       = ((Some (a\<lparr>cells := apply_writes
                  ((ws @ pw) @ fst (seq_plan (\<lambda>c. chan_plan c outname imlist ns fs) chans)) (cells a)\<rparr>),
           fs(outname \<mapsto> f\<lparr>body := apply_writes
                  ((ws @ pw) @ fst (seq_plan (\<lambda>c. chan_plan c outname imlist ns fs) chans)) (body f)\<rparr>)),
          snd (seq_plan (\<lambda>c. chan_plan c outname imlist ns fs) chans))"
        using Cons.prems(1) fit2 by (intro Cons.IH) simp_all
      show ?thesis
        unfolding sp
        by (simp only: fill_channels.simps lk Some option.case cpl Let_def prod.case st
            fun_upd_upd None IH fst_conv snd_conv append_assoc)
    qed
  qed
qed



lemma fill_cube_with_images_nf:
  assumes "fs outname = Some f" and "hdu_data f = Inr (Some a)" and "outname \<notin> set imlist"
  shows "fill_cube_with_images imlist ns outname fs =
     (case snd (seq_plan (\<lambda>c. chan_plan c outname imlist ns fs) [0 ..< length imlist]) of
        Some e \<Rightarrow>
          (fs(outname \<mapsto> f\<lparr>body := apply_writes
               (fst (seq_plan (\<lambda>c. chan_plan c outname imlist ns fs) [0 ..< length imlist])) (body f)\<rparr>),
           Some e)
      | None \<Rightarrow>
          if length (shape a) < 2
          then (fs(outname \<mapsto> f\<lparr>body := apply_writes
               (fst (seq_plan (\<lambda>c. chan_plan c outname imlist ns fs) [0 ..< length imlist])) (body f)\<rparr>),
                Some IndexError)
          else update_fits_header outname (fitsheader (int (shape a ! 1) + 1))
             (fs(outname \<mapsto> f\<lparr>body := apply_writes
               (fst (seq_plan (\<lambda>c. chan_plan c outname imlist ns fs) [0 ..< length imlist])) (body f)\<rparr>)))"
proof -
  have same: "fs(outname \<mapsto> f\<lparr>body := apply_writes [] (body f)\<rparr>) = fs"
    using assms(1) by (auto simp: apply_writes_Nil)
  have a0: "a\<lparr>cells := apply_writes [] (cells a)\<rparr> = a" by (simp add: apply_writes_Nil)
  have "fill_channels outname imlist ns f [0 ..< length imlist] (Some (a\<lparr>cells := apply_writes [] (cells a)\<rparr>))
           (fs(outname \<mapsto> f\<lparr>body := apply_writes [] (body f)\<rparr>))
       = ((Some (a\<lparr>cells := apply_writes
                  ([] @ fst (seq_plan (\<lambda>c. chan_plan c outname imlist ns fs) [0 ..< length imlist])) (cells a)\<rparr>),
           fs(outname \<mapsto> f\<lparr>body := apply_writes
                  ([] @ fst (seq_plan (\<lambda>c. chan_plan c outname imlist ns fs) [0 ..< length imlist])) (body f)\<rparr>)),
          snd (seq_plan (\<lambda>c. chan_plan c outname imlist ns fs) [0 ..< length imlist]))"
    using assms by (intro fill_channels_nf) simp_all
  then have fc: "fill_channels outname imlist ns f [0 ..< length imlist] (Some a) fs
       = ((Some (a\<lparr>cells := apply_writes
                  (fst (seq_plan (\<lambda>c. chan_plan c outname imlist ns fs) [0 ..< length imlist])) (cells a)\<rparr>),
           fs(outname \<mapsto> f\<lparr>body := apply_writes
                  (fst (seq_plan (\<lambda>c. chan_plan c outname imlist ns fs) [0 ..< length imlist])) (body f)\<rparr>)),
          snd (seq_plan (\<lambda>c. chan_plan c outname imlist ns fs) [0 ..< length imlist]))"
    unfolding same a0 by simp
  show ?thesis
    using assms(1,2)
    by (simp add: fill_cube_with_images_def Let_def fc highest_channel_def split: option.split)
qed



lemma update_fits_header_Some:
  "fs outname = Some g \<Longrightarrow> update_fits_header outname hdict fs
      = (fs(outname \<mapsto> g\<lparr>cards := foldl (\<lambda>h (key, val). set_card key val h) (cards g) hdict\<rparr>), None)"
  by (simp add: update_fits_header_def)




section \<open>Images of the shape of the output's planes\<close>

lemma concat_chunks:
  "length xs = t * m \<Longrightarrow> concat (map (\<lambda>i. take m (drop (i * m) xs)) [0 ..< t]) = xs"
proof (induction t arbitrary: xs)
  case 0
  then show ?case by simp
next
  case (Suc t)
  have l: "length (drop m xs) = t * m" using Suc.prems by simp
  have "[0 ..< Suc t] = 0 # map Suc [0 ..< t]"
    by (simp add: upt_conv_Cons map_Suc_upt del: upt_Suc)
  then have "concat (map (\<lambda>i. take m (drop (i * m) xs)) [0 ..< Suc t])
      = take m xs @ concat (map (\<lambda>i. take m (drop (Suc i * m) xs)) [0 ..< t])"
    by (simp add: comp_def del: upt_Suc)
  also have "(\<lambda>i. take m (drop (Suc i * m) xs)) = (\<lambda>i. take m (drop (i * m) (drop m xs)))"
    by (simp add: add.commute)
  also have "concat (map (\<lambda>i. take m (drop (i * m) (drop m xs))) [0 ..< t]) = drop m xs"
    using l by (rule Suc.IH)
  finally show ?case by simp
qed

lemma bcast_same: "length xs = prod_list ts \<Longrightarrow> bcast ts ts xs = xs"
proof (induction ts arbitrary: xs)
  case Nil
  then show ?case by simp
next
  case (Cons t ts)
  have each: "bcast ts ts (take (prod_list ts) (drop (i * prod_list ts) xs))
                = take (prod_list ts) (drop (i * prod_list ts) xs)" if "i < t" for i
  proof -
    have "(i + 1) * prod_list ts \<le> t * prod_list ts" using that by (intro mult_le_mono1) simp
    then have "i * prod_list ts + prod_list ts \<le> length xs" using Cons.prems by simp
    then show ?thesis by (intro Cons.IH) simp
  qed
  have m: "map (\<lambda>i. bcast ts ts (take (prod_list ts) (drop (i * prod_list ts) xs))) [0 ..< t]
      = map (\<lambda>i. take (prod_list ts) (drop (i * prod_list ts) xs)) [0 ..< t]"
    by (rule map_cong) (simp_all add: each)
  have "bcast (t # ts) (t # ts) xs
      = concat (map (\<lambda>i. bcast ts ts (take (prod_list ts) (drop (i * prod_list ts) xs))) [0 ..< t])"
    by simp
  also have "\<dots> = concat (map (\<lambda>i. take (prod_list ts) (drop (i * prod_list ts) xs)) [0 ..< t])"
    unfolding m ..
  also have "\<dots> = xs" using Cons.prems by (intro concat_chunks) simp
  finally show ?case .
qed

lemma list_all2_bcast_refl: "list_all2 (\<lambda>t d. d = t \<or> d = 1) ts ts"
  by (induction ts) auto

lemma broadcast_same:
  assumes "wf_array v" and "shape v = ts"
  shows "broadcast ts v = Inr (cells v)"
proof -
  have l: "length (cells v) = prod_list ts" using assms by (simp add: wf_array_def)
  have s: "strip_ones (length ts) (shape v) = ts" using assms(2) by (simp add: length_strip_ones_same)
  show ?thesis
    unfolding broadcast_def Let_def s using list_all2_bcast_refl[of ts] by (simp add: bcast_same[OF l])
qed

text \<open>A plane of an image with four axes, of the shape of the output's planes, is written as
  it is.\<close>

lemma plane_write_good:
  assumes "hdu_data hdu = Inr (Some a)" and "shape a = [pa, da, y, x]" and "p < pa" and "0 < da"
    and "p < po" and "i < n"
  shows "plane_write hdu i [po, n, y, x] p
     = Inr (plane_offset [po, n, y, x] p i, take (y * x) (drop (p * da * (y * x)) (cells a)))"
proof -
  define v where "v = \<lparr>shape = [y, x], cells = take (y * x) (drop (p * da * (y * x)) (cells a))\<rparr>"
  have g: "getitem a p 0 = Inr v"
    using assms(2,3,4) by (simp add: getitem_def v_def plane_offset_def)
  have po: "plane_of hdu p = Inr v" by (simp add: plane_of_def assms(1) g)
  have "broadcast [y, x] v = Inr (cells v)"
    using wf_plane_of[OF po] by (rule broadcast_same) (simp add: v_def)
  then show ?thesis using assms(5,6) by (simp add: plane_write_def po v_def)
qed

lemma plan_good:
  assumes "hdu_data hdu = Inr (Some a)" and "shape a = [pa, da, y, x]" and "0 < da" and "i < n"
    and "\<And>p. p \<in> set ps \<Longrightarrow> p < pa \<and> p < po"
  shows "plan hdu i [po, n, y, x] ps
     = (map (\<lambda>p. (plane_offset [po, n, y, x] p i, take (y * x) (drop (p * da * (y * x)) (cells a)))) ps,
        None)"
  using assms(5)
proof (induction ps)
  case Nil
  then show ?case by simp
next
  case (Cons p ps)
  have "p < pa" "p < po" using Cons.prems by simp_all
  then have pw: "plane_write hdu i [po, n, y, x] p
     = Inr (plane_offset [po, n, y, x] p i, take (y * x) (drop (p * da * (y * x)) (cells a)))"
    using assms(1,2,3,4) by (intro plane_write_good) simp_all
  show ?case using Cons by (simp add: pw)
qed

subsection \<open>The small run, filled\<close>

lemma chan_disk_nth: "c < 3 \<Longrightarrow> skeleton_disk (chan_list ! c) = Some (chan_image c)"
proof -
  assume "c < 3"
  then consider "c = 0" | "c = 1" | "c = 2" by linarith
  then show ?thesis
    by cases (simp_all add: skeleton_disk_def chan_disk_def chan_list_def)
qed

lemma chan_plan_small_run:
  assumes "c < 3"
  shows "chan_plan c ''concat.fits'' chan_list 2 skeleton_disk
     = ([(c * 16, replicate 16 (int ((c + 1) * 10))),
         ((3 + c) * 16, replicate 16 (int ((c + 1) * 10 + 1)))], None)"
proof -
  have len: "c < length chan_list" using assms by (simp add: chan_list_def)
  let ?cells = "replicate 16 (int ((c + 1) * 10)) @ replicate 16 (int ((c + 1) * 10 + 1))"
  have pl: "plan (chan_image c) c [2, 3, 4, 4] [0 ..< 2]
     = (map (\<lambda>p. (plane_offset [2, 3, 4, 4] p c, take (4 * 4) (drop (p * 1 * (4 * 4)) ?cells))) [0 ..< 2],
        None)"
  proof (rule plan_good[where a="\<lparr>shape = [2, 1, 4, 4], cells = ?cells\<rparr>" and pa=2 and da=1
        and po=2 and n=3 and y=4 and x=4, simplified ndarray.simps])
    show "hdu_data (chan_image c) = Inr (Some \<lparr>shape = [2, 1, 4, 4], cells = ?cells\<rparr>)"
      by (rule hdu_data_chan_image)
    show "[2, 1, 4, 4] = [2, 1, 4, 4::nat]" ..
    show "(0::nat) < 1" by simp
    show "c < 3" by (rule assms)
    show "p < 2 \<and> p < 2" if "p \<in> set [0 ..< 2]" for p using that by simp
  qed
  have u: "[0 ..< 2] = [0, Suc 0]" by (simp add: upt_rec)
  show ?thesis
    unfolding chan_plan_Some[where fs=skeleton_disk and outname="''concat.fits''" and f=skeleton_file
        and imlist=chan_list and c=c, OF skeleton_disk_out hdu_data_skeleton len]
      chan_disk_nth[OF assms]
    using pl by (simp add: u plane_offset_def add.commute)
qed

lemma small_run_writes:
  "apply_writes
     ([(0, replicate 16 10), (48, replicate 16 11)] @ [(16, replicate 16 20), (64, replicate 16 21)]
       @ [(32, replicate 16 30), (80, replicate 16 31)])
     (replicate 720 (0::int)) = filled_body"
proof -
  have r: "replicate 720 (0::int) = replicate 16 0 @ replicate 16 0 @ replicate 16 0 @ replicate 16 0
      @ replicate 16 0 @ replicate 16 0 @ replicate 624 0"
    by (simp add: replicate_add[symmetric])
  show ?thesis
    unfolding r filled_body_def by (simp add: apply_writes_def write_block_def)
qed

lemma small_run_plans:
  "map (\<lambda>c. fst (chan_plan c ''concat.fits'' chan_list 2 skeleton_disk)) [0, 1, 2]
     = [[(0, replicate 16 10), (48, replicate 16 11)], [(16, replicate 16 20), (64, replicate 16 21)],
        [(32, replicate 16 30), (80, replicate 16 31)]]"
  "map (\<lambda>c. (c, snd (chan_plan c ''concat.fits'' chan_list 2 skeleton_disk))) [0, 1, 2]
     = [(0, None), (1, None), (2, None)]"
  using chan_plan_small_run[of 0] chan_plan_small_run[of 1] chan_plan_small_run[of 2]
  by simp_all

lemma chan_list_props: "length chan_list = 3" "''concat.fits'' \<notin> set chan_list"
  by (simp_all add: chan_list_def)

lemma upt3: "[0 ..< 3] = [0, 1, 2]"
  by (simp add: upt_rec)

lemma small_run_final_cards:
  "foldl (\<lambda>h (key, val). set_card key val h) (cards skeleton_file) (fitsheader n) = cards (filled_file n)"
  by (simp add: fitsheader_def skeleton_file_def filled_file_def)

lemma small_run_pool:
  "fill_cube_with_images_multiprocess [0, 1, 2] chan_list 2 ''concat.fits'' skeleton_disk
     = (skeleton_disk(''concat.fits'' \<mapsto> filled_file 3), None)"
proof -
  have ga: "get_all [(0, None), (1, None), (2, None)] [0, 1, 2] = None" by simp
  have b: "body skeleton_file = replicate 720 0" by (simp add: skeleton_file_def)
  have w: "apply_writes (concat [[(0, replicate 16 10), (48, replicate 16 11)],
        [(16, replicate 16 20), (64, replicate 16 21)], [(32, replicate 16 30), (80, replicate 16 31)]])
      (replicate 720 (0::int)) = filled_body"
    using small_run_writes by simp
  have o: "(skeleton_disk(''concat.fits'' \<mapsto> skeleton_file\<lparr>body := filled_body\<rparr>)) ''concat.fits''
      = Some (skeleton_file\<lparr>body := filled_body\<rparr>)" by simp
  have ff: "skeleton_file\<lparr>body := filled_body,
       cards := foldl (\<lambda>h (key, val). set_card key val h) (cards skeleton_file) (fitsheader 3)\<rparr>
     = filled_file 3"
    unfolding small_run_final_cards by (simp add: skeleton_file_def filled_file_def)
  show ?thesis
    unfolding pool_nf[where fs=skeleton_disk and outname="''concat.fits''" and f=skeleton_file
        and imlist=chan_list, OF skeleton_disk_out chan_list_props(2)]
      chan_list_props(1) upt3 small_run_plans ga b w
    by (simp add: update_fits_header_def ff)
qed

lemma small_run_seq:
  "fill_cube_with_images chan_list 2 ''concat.fits'' skeleton_disk
     = (skeleton_disk(''concat.fits'' \<mapsto> filled_file 4), None)"
proof -
  have sp: "seq_plan (\<lambda>c. chan_plan c ''concat.fits'' chan_list 2 skeleton_disk) [0, 1, 2]
      = ([(0, replicate 16 10), (48, replicate 16 11)] @ [(16, replicate 16 20), (64, replicate 16 21)]
           @ [(32, replicate 16 30), (80, replicate 16 31)], None)"
    using chan_plan_small_run[of 0] chan_plan_small_run[of 1] chan_plan_small_run[of 2] by simp
  have b: "body skeleton_file = replicate 720 0" by (simp add: skeleton_file_def)
  have ff: "skeleton_file\<lparr>body := filled_body,
       cards := foldl (\<lambda>h (key, val). set_card key val h) (cards skeleton_file) (fitsheader 4)\<rparr>
     = filled_file 4"
    unfolding small_run_final_cards by (simp add: skeleton_file_def filled_file_def)
  show ?thesis
    unfolding fill_cube_with_images_nf[where fs=skeleton_disk and outname="''concat.fits''"
        and f=skeleton_file and imlist=chan_list, OF skeleton_disk_out hdu_data_skeleton chan_list_props(2)]
      chan_list_props(1) upt3 sp fst_conv snd_conv b small_run_writes
    by (simp add: update_fits_header_def ff)
qed

section \<open>C5: the order of the fills\<close>



section \<open>The header after the fill\<close>

lemma map_of_set_card: "map_of (set_card k v h) k' = (if k' = k then Some v else map_of h k')"
  by (induction h) auto

lemma map_of_fitsheader:
  "map_of (foldl (\<lambda>h (key, val). set_card key val h) h (fitsheader n)) ''CRPIX3'' = Some (HInt 1)"
  "map_of (foldl (\<lambda>h (key, val). set_card key val h) h (fitsheader n)) ''NAXIS3'' = Some (HInt n)"
  "map_of (foldl (\<lambda>h (key, val). set_card key val h) h (fitsheader n)) ''CTYPE3'' = Some (HStr ''FREQ'')"
  by (simp_all add: fitsheader_def map_of_set_card)

lemma hdu_shape_skeleton_header:
  "hdu_shape (foldl (dim_cards X Y) primary_header (enumerate 1 [X, Y, Z, W])) = [W, Z, Y, X]"
  unfolding skeleton_header
  by (simp add: hdu_shape_def header_nat_def str_nat_small str_nat_Suc upt_rec)

text \<open>What a run of \<^verbatim>\<open>make_empty_image\<close> that raises nothing has done.\<close>

lemma make_empty_image_ok:
  assumes "make_empty_image imlist P outname fs0 = (fs, None)"
  shows "\<exists>hud d X Y f. imlist \<noteq> [] \<and> fs0 (hd imlist) = Some hud \<and> hdu_data hud = Inr d
           \<and> last2 (squeeze_shape d) = Some (X, Y)
           \<and> fs = fs0(outname \<mapsto> f)
           \<and> seek_write_zero (foldl (dim_cards X Y) primary_header (enumerate 1 [X, Y, length imlist, P]))
                (np_int64 (np_int64 (int 2880 + padded_data_size [X, Y, length imlist, P]) - 1)) = Inr f
           \<and> cards f = foldl (dim_cards X Y) primary_header (enumerate 1 [X, Y, length imlist, P])"
proof -
  obtain im0 rest where il: "imlist = im0 # rest"
    using assms by (cases imlist) (simp_all add: make_empty_image_def)
  obtain hud where hud: "fs0 im0 = Some hud"
    using assms by (cases "fs0 im0") (simp_all add: make_empty_image_def il)
  obtain d where d: "hdu_data hud = Inr d"
    using assms by (cases "hdu_data hud") (simp_all add: make_empty_image_def il hud)
  obtain X Y where xy: "last2 (squeeze_shape d) = Some (X, Y)"
    using assms by (cases "last2 (squeeze_shape d)") (auto simp: make_empty_image_def il hud d)
  have ne: "imlist \<noteq> []" and h: "fs0 (hd imlist) = Some hud" by (simp_all add: il hud)
  note u = make_empty_image_unfold[where imlist=imlist and fs=fs0 and P=P and outname=outname,
      OF ne h d xy, unfolded header_size_skeleton]
  define hdr where "hdr = foldl (dim_cards X Y) primary_header (enumerate 1 [X, Y, length imlist, P])"
  define pos where "pos = np_int64 (np_int64 (int 2880 + padded_data_size [X, Y, length imlist, P]) - 1)"
  have u': "make_empty_image imlist P outname fs0 =
     (case seek_write_zero hdr pos of
        Inl e \<Rightarrow> (fs0(outname \<mapsto> \<lparr>cards = hdr, body = [], spare = 0\<rparr>), Some e)
      | Inr f \<Rightarrow> (fs0(outname \<mapsto> f), None))"
    unfolding hdr_def pos_def by (rule u)
  obtain f :: "'a fits_file" where f: "seek_write_zero hdr pos = Inr f" and fs: "fs = fs0(outname \<mapsto> f)"
  proof (cases "seek_write_zero hdr pos :: error + 'a fits_file")
    case (Inl e)
    then show ?thesis using assms unfolding u' by simp
  next
    case (Inr f)
    then show ?thesis using assms that unfolding u' by simp
  qed
  have c: "cards f = hdr"
    using f by (auto simp: seek_write_zero_def Let_def split: if_splits)
  show ?thesis using ne h d xy fs f c unfolding hdr_def pos_def by blast
qed



text \<open>The pool sets the three cards to 1, the number of images, and \<^verbatim>\<open>FREQ\<close>.\<close>

lemma pool_header:
  assumes "snd (fill_cube_with_images_multiprocess sched imlist planes outname fs) = None"
  shows "\<exists>g. fst (fill_cube_with_images_multiprocess sched imlist planes outname fs) outname = Some g
           \<and> map_of (cards g) ''CRPIX3'' = Some (HInt 1)
           \<and> map_of (cards g) ''NAXIS3'' = Some (HInt (int (length imlist)))
           \<and> map_of (cards g) ''CTYPE3'' = Some (HStr ''FREQ'')"
proof -
  define fs1 where "fs1 = fst (run_pool sched outname imlist (length imlist) planes fs)"
  define sol where "sol = snd (run_pool sched outname imlist (length imlist) planes fs)"
  have p: "fill_cube_with_images_multiprocess sched imlist planes outname fs
      = (case get_all sol [0 ..< length imlist] of
            Some e \<Rightarrow> (fs1, Some e)
          | None \<Rightarrow> update_fits_header outname (fitsheader (int (length imlist))) fs1)"
    unfolding fs1_def sol_def fill_cube_with_images_multiprocess_def Let_def split_beta
    by (simp split: option.split)
  have g0: "get_all sol [0 ..< length imlist] = None"
    using assms unfolding p by (cases "get_all sol [0 ..< length imlist]") simp_all
  have up: "fill_cube_with_images_multiprocess sched imlist planes outname fs
      = update_fits_header outname (fitsheader (int (length imlist))) fs1"
    unfolding p g0 by simp
  obtain g where g: "fs1 outname = Some g"
    using assms unfolding up by (cases "fs1 outname") (simp_all add: update_fits_header_def)
  show ?thesis
    unfolding up by (simp add: update_fits_header_def g map_of_fitsheader)
qed

text \<open>Without overflow the skeleton holds an array of zeros of the shape
  \<open>[planes, depth, Y, X]\<close>.\<close>

lemma skeleton_readable:
  fixes fs0 :: "('a::zero) disk"
  assumes mk: "make_empty_image imlist P outname fs0 = (fs, None)"
    and h: "fs0 (hd imlist) = Some hud" "hdu_data hud = Inr d" "last2 (squeeze_shape d) = Some (X, Y)"
    and lim: "2880 + \<lceil>real (X * Y * length imlist * P * 4) / 2880\<rceil> * 2880 < 2 ^ 63"
  shows "\<exists>f. fs = fs0(outname \<mapsto> f) \<and> imlist \<noteq> [] \<and> hdu_shape (cards f) = [P, length imlist, Y, X]
           \<and> hdu_data f = Inr (Some \<lparr>shape = [P, length imlist, Y, X],
                                     cells = replicate (X * Y * length imlist * P) 0\<rparr>)"
proof -
  have ne: "imlist \<noteq> []" using make_empty_image_ok[OF mk] by blast
  define hdr where "hdr = foldl (dim_cards X Y) primary_header (enumerate 1 [X, Y, length imlist, P])"
  obtain k where k: "X * Y * length imlist * P \<le> k"
    and run: "make_empty_image imlist P outname fs0
       = (fs0(outname \<mapsto> \<lparr>cards = hdr, body = replicate k 0, spare = 0\<rparr>), None)"
    using make_empty_image_run[where imlist=imlist and fs=fs0 and P=P and outname=outname,
        OF ne h lim] unfolding hdr_def by blast
  define f :: "'a fits_file" where "f = \<lparr>cards = hdr, body = replicate k 0, spare = 0\<rparr>"
  have fs: "fs = fs0(outname \<mapsto> f)" using run mk unfolding f_def by simp
  have sh: "hdu_shape (cards f) = [P, length imlist, Y, X]"
    using hdu_shape_skeleton_header[of X Y "length imlist" P] unfolding f_def hdr_def by simp
  have pl: "prod_list [P, length imlist, Y, X] = X * Y * length imlist * P" by simp
  have "hdu_data f = Inr (Some \<lparr>shape = [P, length imlist, Y, X],
                                     cells = replicate (X * Y * length imlist * P) 0\<rparr>)"
    unfolding hdu_data_def sh Let_def pl using k by (simp add: f_def min_def)
  then show ?thesis using fs sh ne by blast
qed

section \<open>C2: the cards of the depth axis\<close>



section \<open>C4: reading back what was filled\<close>

subsection \<open>The small run\<close>

text \<open>With three images of 4 by 4 pixels in two planes, where plane \<open>p\<close> of image \<open>i\<close> holds
  \<open>(i + 1) * 10 + p\<close>, both fills leave 31 at every pixel of plane 1 of channel 2.\<close>

lemma filled_body_31: "r < 16 \<Longrightarrow> filled_body ! (plane_offset [2, 3, 4, 4] 1 2 + r) = 31"
  by (simp add: filled_body_def plane_offset_def nth_append)

lemma small_run_pixel:
  assumes "x < 4" and "y < 4"
  shows "body (the (fst (fill_cube_with_images_multiprocess [0, 1, 2] chan_list 2 ''concat.fits'' skeleton_disk)
            ''concat.fits'')) ! (plane_offset [2, 3, 4, 4] 1 2 + (y * 4 + x)) = 31"
    and "body (the (fst (fill_cube_with_images chan_list 2 ''concat.fits'' skeleton_disk)
            ''concat.fits'')) ! (plane_offset [2, 3, 4, 4] 1 2 + (y * 4 + x)) = 31"
proof -
  have r: "y * 4 + x < 16" using assms by simp
  show "body (the (fst (fill_cube_with_images_multiprocess [0, 1, 2] chan_list 2 ''concat.fits'' skeleton_disk)
            ''concat.fits'')) ! (plane_offset [2, 3, 4, 4] 1 2 + (y * 4 + x)) = 31"
    unfolding small_run_pool using filled_body_31[OF r] by (simp add: filled_file_def)
  show "body (the (fst (fill_cube_with_images chan_list 2 ''concat.fits'' skeleton_disk)
            ''concat.fits'')) ! (plane_offset [2, 3, 4, 4] 1 2 + (y * 4 + x)) = 31"
    unfolding small_run_seq using filled_body_31[OF r] by (simp add: filled_file_def)
qed

subsection \<open>Images that are not square\<close>

lemma last2_squeeze_4d:
  assumes "shape a = [pa, da, X, Y]" and "X \<noteq> 1" and "Y \<noteq> 1"
  shows "last2 (squeeze_shape (Some a)) = Some (X, Y)"
proof -
  define q where "q = filter (\<lambda>n. n \<noteq> 1) [pa, da]"
  have "filter (\<lambda>n. n \<noteq> 1) ([pa, da] @ [X, Y]) = q @ [X, Y]"
    unfolding filter_append q_def using assms(2,3) by simp
  then have "filter (\<lambda>n. n \<noteq> 1) (shape a) = q @ [X, Y]" using assms(1) by simp
  then have "squeeze_shape (Some a) = q @ [X, Y]" by (simp add: squeeze_shape_def)
  then show ?thesis by (simp add: last2_def nth_append)
qed

text \<open>A plane of \<open>X\<close> rows and \<open>Y\<close> columns does not go into a plane of \<open>Y\<close> rows and \<open>X\<close>
  columns.\<close>

lemma broadcast_transposed:
  assumes "shape v = [X, Y]" and "X \<noteq> Y" and "X \<noteq> 1" and "Y \<noteq> 1"
  shows "broadcast [Y, X] v = Inl ValueError"
  using assms by (simp add: broadcast_def)

lemma plane_write_transposed:
  assumes "hdu_data hdu = Inr (Some a)" and "shape a = [pa, da, X, Y]" and "0 < pa" and "0 < da"
    and "X \<noteq> Y" and "X \<noteq> 1" and "Y \<noteq> 1" and "0 < po" and "i < n"
  shows "plane_write hdu i [po, n, Y, X] 0 = Inl ValueError"
proof -
  define v where "v = \<lparr>shape = [X, Y], cells = take (X * Y) (cells a)\<rparr>"
  have g: "getitem a 0 0 = Inr v"
    using assms(2,3,4) by (simp add: getitem_def v_def plane_offset_def)
  have po: "plane_of hdu 0 = Inr v" by (simp add: plane_of_def assms(1) g)
  have "broadcast [Y, X] v = Inl ValueError"
    using assms(5,6,7) by (intro broadcast_transposed) (simp_all add: v_def)
  then show ?thesis using assms(8,9) by (simp add: plane_write_def po)
qed

lemma chan_plan_transposed:
  assumes f: "fs outname = Some f" and o: "hdu_data f = Inr (Some b)" and sb: "shape b = [P, n, Y, X]"
    and i: "i < length imlist" "i < n" and im: "fs (imlist ! i) = Some hdu"
    and a: "hdu_data hdu = Inr (Some a)" "shape a = [pa, da, X, Y]" "0 < pa" "0 < da"
    and ns: "X \<noteq> Y" "X \<noteq> 1" "Y \<noteq> 1" and P: "0 < P"
  shows "chan_plan i outname imlist P fs = ([], Some ValueError)"
proof -
  have u: "[0 ..< P] = 0 # [1 ..< P]" using P by (simp add: upt_conv_Cons)
  have "plan hdu i [P, n, Y, X] [0 ..< P] = ([], Some ValueError)"
    unfolding u using plane_write_transposed[OF a ns P i(2)] by simp
  then show ?thesis
    by (simp add: chan_plan_def f o i(1) im sb)
qed

lemma hdu_data_rect:
  "hdu_data (image_file [1, 1, 2, 3] (replicate 6 (10::int)))
     = Inr (Some \<lparr>shape = [1, 1, 2, 3], cells = replicate 6 10\<rparr>)"
  unfolding hdu_data_def Let_def hdu_shape_image_4d by (simp add: image_file_def)


text \<open>
  Claim C4 says that after \<^verbatim>\<open>make_empty_image\<close> and a fill of all channels, channel \<open>i\<close>, plane
  \<open>p\<close> of the output reads what plane \<open>p\<close> of image \<open>i\<close> holds, for every set of images. The
  small run above does. But \<^verbatim>\<open>make_empty_image\<close> takes \<^verbatim>\<open>xdim, ydim\<close> from the last two axes of
  the first image's array and writes \<^verbatim>\<open>NAXIS1 = xdim\<close>, \<^verbatim>\<open>NAXIS2 = ydim\<close>, so the planes of the
  output have \<^verbatim>\<open>ydim\<close> rows and \<^verbatim>\<open>xdim\<close> columns: when the first image has four axes, the last
  two of lengths \<open>X \<noteq> Y\<close>, neither of them 1, the assignment of plane 0 of channel 0 raises
  \<^verbatim>\<open>ValueError\<close>. The sequential fill ends there with the skeleton as it was, and the pool
  raises the same exception once all its units have run.
\<close>

theorem fill_cube_with_images_non_square:
  fixes fs0 :: "('a::zero) disk"
  assumes mk: "make_empty_image imlist P outname fs0 = (fs, None)"
    and na: "outname \<notin> set imlist"
    and h: "fs0 (hd imlist) = Some hud" "hdu_data hud = Inr (Some a)" "shape a = [pa, da, X, Y]"
    and ns: "X \<noteq> Y" "X \<noteq> 1" "Y \<noteq> 1"
    and pos: "0 < pa" "0 < da" "0 < P"
    and lim: "2880 + \<lceil>real (X * Y * length imlist * P * 4) / 2880\<rceil> * 2880 < 2 ^ 63"
  shows "fill_cube_with_images imlist P outname fs = (fs, Some ValueError)
     \<and> (\<forall>sched. set sched = {..< length imlist}
          \<longrightarrow> snd (fill_cube_with_images_multiprocess sched imlist P outname fs) = Some ValueError)"
proof -
  have l2: "last2 (squeeze_shape (Some a)) = Some (X, Y)" using h(3) ns(2,3) by (rule last2_squeeze_4d)
  obtain f where fs: "fs = fs0(outname \<mapsto> f)" and ne: "imlist \<noteq> []"
    and o: "hdu_data f = Inr (Some \<lparr>shape = [P, length imlist, Y, X],
                                     cells = replicate (X * Y * length imlist * P) 0\<rparr>)"
    using skeleton_readable[OF mk h(1,2) l2 lim] by blast
  define b :: "'a ndarray" where "b = \<lparr>shape = [P, length imlist, Y, X],
                                     cells = replicate (X * Y * length imlist * P) 0\<rparr>"
  have ob: "hdu_data f = Inr (Some b)" and sb: "shape b = [P, length imlist, Y, X]"
    using o by (simp_all add: b_def)
  have f: "fs outname = Some f" using fs by simp
  have n0: "0 < length imlist" using ne by simp
  have "hd imlist \<in> set imlist" using ne by simp
  then have "hd imlist \<noteq> outname" using na by auto
  then have "fs (hd imlist) = Some hud" using fs h(1) by simp
  then have im: "fs (imlist ! 0) = Some hud" using ne by (simp add: hd_conv_nth)
  let ?P = "\<lambda>c. chan_plan c outname imlist P fs"
  have cp: "?P 0 = ([], Some ValueError)"
    using chan_plan_transposed[where fs=fs and outname=outname, OF f ob sb n0 n0 im h(2,3) pos(1,2) ns pos(3)] .
  have u: "[0 ..< length imlist] = 0 # [1 ..< length imlist]" using n0 by (simp add: upt_conv_Cons)
  have sp: "seq_plan ?P [0 ..< length imlist] = ([], Some ValueError)"
    unfolding u by (simp add: cp)
  have same: "fs(outname \<mapsto> f\<lparr>body := body f\<rparr>) = fs" using f by auto
  have seq: "fill_cube_with_images imlist P outname fs = (fs, Some ValueError)"
    unfolding fill_cube_with_images_nf[where fs=fs and outname=outname, OF f ob na] sp
    using same by (simp add: apply_writes_Nil)
  have pool: "snd (fill_cube_with_images_multiprocess sched imlist P outname fs) = Some ValueError"
    if sc: "set sched = {..< length imlist}" for sched
  proof -
    have m: "map_of (map (\<lambda>c. (c, snd (?P c))) sched) 0 = Some (Some ValueError)"
      using sc n0 cp by (simp add: map_of_map_restrict restrict_map_def)
    have g: "get_all (map (\<lambda>c. (c, snd (?P c))) sched) [0 ..< length imlist] = Some ValueError"
      unfolding u by (simp add: m)
    show ?thesis
      unfolding pool_nf[where fs=fs and outname=outname, OF f na] g by simp
  qed
  show ?thesis using seq pool by blast
qed

text \<open>One image of 2 rows and 3 columns: the skeleton is made, and neither fill gets past
  plane 0 of channel 0.\<close>

theorem fill_cube_with_images_non_square_witness:
  "snd (make_empty_image [''rect.fits''] 1 ''out.fits'' rect_disk) = None
   \<and> fill_cube_with_images [''rect.fits''] 1 ''out.fits''
         (fst (make_empty_image [''rect.fits''] 1 ''out.fits'' rect_disk))
       = (fst (make_empty_image [''rect.fits''] 1 ''out.fits'' rect_disk), Some ValueError)
   \<and> snd (fill_cube_with_images_multiprocess [0] [''rect.fits''] 1 ''out.fits''
         (fst (make_empty_image [''rect.fits''] 1 ''out.fits'' rect_disk))) = Some ValueError"
proof -
  let ?a = "\<lparr>shape = [1, 1, 2, 3], cells = replicate 6 (10::int)\<rparr>"
  let ?mk = "make_empty_image [''rect.fits''] 1 ''out.fits'' rect_disk"
  have ne: "[''rect.fits''] \<noteq> []" by simp
  have h1: "rect_disk (hd [''rect.fits'']) = Some (image_file [1, 1, 2, 3] (replicate 6 10))"
    by (simp add: rect_disk_def)
  have l2: "last2 (squeeze_shape (Some ?a)) = Some (2, 3)" by (simp add: last2_def squeeze_shape_def)
  have c: "\<lceil>real (2 * 3 * length [''rect.fits''] * 1 * 4) / 2880\<rceil> * 2880 = 2880"
    using ceil_2880[of 24] by simp
  have lim: "2880 + \<lceil>real (2 * 3 * length [''rect.fits''] * 1 * 4) / 2880\<rceil> * 2880 < 2 ^ 63"
    unfolding c by simp
  have ok: "snd ?mk = None"
    using make_empty_image_run[where imlist="[''rect.fits'']" and fs=rect_disk and P=1
        and outname="''out.fits''", OF ne h1 hdu_data_rect l2 lim] by auto
  then have mk: "?mk = (fst ?mk, None)" by (simp add: prod_eq_iff)
  have na: "''out.fits'' \<notin> set [''rect.fits'']" by simp
  have sh: "shape ?a = [1, 1, 2, 3]" by simp
  have sc: "set [0::nat] = {..< length [''rect.fits'']}" by auto
  show ?thesis
    using fill_cube_with_images_non_square[where imlist="[''rect.fits'']" and P=1
        and outname="''out.fits''" and ?fs0.0=rect_disk and fs="fst ?mk", OF mk na h1 hdu_data_rect sh _ _ _ _ _ _ lim]
      ok sc by simp
qed

end
